theory Spec2Isabelle
  imports Complex_Main "HOL-Library.Monad_Syntax" "HOL-Library.Multiset"
begin

section \<open>Data model\<close>

text \<open>
  Modelled from the spec: the declarations of the tables \<open>tasks\<close>, \<open>projects\<close> and
  \<open>categories\<close>, which the storage layer imports from the schema module; the module is
  not among the sources. The columns are those of the spec's data model, which are also
  the ones the storage layer and the routes read and write. Nullable text columns are
  \<open>string option\<close> (\<open>None\<close> is SQL \<open>NULL\<close> / JavaScript \<open>null\<close>); \<open>percentComplete\<close> and
  \<open>sortOrder\<close> are integer columns.
\<close>

record category =
  category_id :: string
  category_name :: string
  color :: string

record project =
  project_id :: string
  project_name :: string
  project_description :: "string option"
  categoryId :: "string option"
  project_status :: string
  project_percentComplete :: int
  project_roadblocks :: "string option"
  project_aiSuggestions :: "string option"

record task =
  task_id :: string
  projectId :: string
  parentTaskId :: "string option"
  task_name :: string
  task_description :: "string option"
  percentComplete :: int
  isCompleted :: bool
  status :: string
  roadblocks :: "string option"
  aiSuggestions :: "string option"
  sortOrder :: int

text \<open>
  The database behind \<open>db\<close>: the rows of each table in table order, and the generator of
  the primary keys that \<open>insert(...).returning()\<close> assigns. The default of the key column
  is part of the missing table declarations, so it is a parameter of the store:
  \<open>idGen s n\<close> is the \<open>n\<close>-th key handed out, \<open>nextId s\<close> counts the keys used so far.
  The store checks no constraint: every insert and delete succeeds, and an update fails
  only when it has no field to set.
\<close>

record store =
  categories :: "category list"
  projects :: "project list"
  tasks :: "task list"
  idGen :: "nat \<Rightarrow> string"
  nextId :: nat

text \<open>
  \<open>TaskWithChildren\<close>: a task row together with its \<open>children\<close> array.
\<close>

datatype taskWithChildren = TaskWithChildren (node_task: task) (children: "taskWithChildren list")

section \<open>JavaScript primitives\<close>

text \<open>
  Truthiness of a value of type \<open>string | null\<close>: \<open>null\<close> and the empty string are
  falsy, every other string is truthy.
\<close>

definition truthy :: "string option \<Rightarrow> bool" where
  "truthy v = (case v of None \<Rightarrow> False | Some x \<Rightarrow> x \<noteq> [])"

text \<open>
  \<open>a || b\<close> on \<open>string | null\<close> operands.
\<close>

definition orElse :: "string option \<Rightarrow> string option \<Rightarrow> string option" where
  "orElse a b = (if truthy a then a else b)"

text \<open>
  \<open>Math.round\<close>: the nearest integer, a tie going to the larger one. The quotient
  \<open>totalPercent / length\<close> of two integers is taken over the reals. The exact quotient
  of an integer by \<open>n\<close> is a half-integer or at least \<open>1 / (2 * n)\<close> away from one, and
  the double quotient is much closer to the exact one than that for every number of rows
  a table holds, so \<open>Math.round\<close> returns the same integer for both.
\<close>

definition Math_round :: "real \<Rightarrow> int" where
  "Math_round x = \<lfloor>x + 1 / 2\<rfloor>"

text \<open>
  \<open>result[0]\<close> of a query result: \<open>undefined\<close> on the empty array.
\<close>

definition first :: "'a list \<Rightarrow> 'a option" where
  "first xs = (case xs of [] \<Rightarrow> None | x # _ \<Rightarrow> Some x)"

section \<open>Storage layer\<close>

definition getProject :: "store \<Rightarrow> string \<Rightarrow> project option" where
  "getProject s pid = first (filter (\<lambda>p. project_id p = pid) (projects s))"

definition getTask :: "store \<Rightarrow> string \<Rightarrow> task option" where
  "getTask s tid = first (filter (\<lambda>t. task_id t = tid) (tasks s))"

text \<open>
  \<open>createProject\<close> and \<open>createTask\<close> insert one row and return it; the key of the row is
  the next one of the generator, whatever key the argument carries.
\<close>

definition createProject :: "store \<Rightarrow> project \<Rightarrow> project \<times> store" where
  "createProject s insertProject =
    (let row = insertProject\<lparr>project_id := idGen s (nextId s)\<rparr>
     in (row, s\<lparr>projects := projects s @ [row], nextId := Suc (nextId s)\<rparr>))"

definition createTask :: "store \<Rightarrow> task \<Rightarrow> task \<times> store" where
  "createTask s insertTask =
    (let row = insertTask\<lparr>task_id := idGen s (nextId s)\<rparr>
     in (row, s\<lparr>tasks := tasks s @ [row], nextId := Suc (nextId s)\<rparr>))"

text \<open>
  The objects of type \<open>Partial<InsertTask>\<close> and \<open>Partial<InsertProject>\<close> that the
  action interpreter builds: a field that is \<open>None\<close> is absent from the object and its
  column is not written.
\<close>

record taskUpdates =
  u_percentComplete :: "int option"
  u_isCompleted :: "bool option"
  u_status :: "string option"
  u_roadblocks :: "string option option"

record projectUpdates =
  pu_percentComplete :: "int option"
  pu_roadblocks :: "string option option"

definition applyTaskUpdates :: "taskUpdates \<Rightarrow> task \<Rightarrow> task" where
  "applyTaskUpdates u t =
    t\<lparr>percentComplete := (case u_percentComplete u of None \<Rightarrow> percentComplete t | Some v \<Rightarrow> v),
      isCompleted := (case u_isCompleted u of None \<Rightarrow> isCompleted t | Some v \<Rightarrow> v),
      status := (case u_status u of None \<Rightarrow> status t | Some v \<Rightarrow> v),
      roadblocks := (case u_roadblocks u of None \<Rightarrow> roadblocks t | Some v \<Rightarrow> v)\<rparr>"

definition applyProjectUpdates :: "projectUpdates \<Rightarrow> project \<Rightarrow> project" where
  "applyProjectUpdates u p =
    p\<lparr>project_percentComplete :=
        (case pu_percentComplete u of None \<Rightarrow> project_percentComplete p | Some v \<Rightarrow> v),
      project_roadblocks :=
        (case pu_roadblocks u of None \<Rightarrow> project_roadblocks p | Some v \<Rightarrow> v)\<rparr>"

text \<open>
  \<open>db.update(table).set(updates)\<close> raises "No values to set" when the object \<open>updates\<close>
  has no field; this happens in \<open>set\<close>, before the statement reaches any row.
\<close>

datatype storeError = NoValuesToSet

definition updateTask ::
  "store \<Rightarrow> string \<Rightarrow> taskUpdates \<Rightarrow> storeError + (task option \<times> store)" where
  "updateTask s tid updates =
    (if u_percentComplete updates = None \<and> u_isCompleted updates = None
        \<and> u_status updates = None \<and> u_roadblocks updates = None
     then Inl NoValuesToSet
     else
       let s' = s\<lparr>tasks := map (\<lambda>t. if task_id t = tid then applyTaskUpdates updates t else t)
                                (tasks s)\<rparr>
       in Inr (first (filter (\<lambda>t. task_id t = tid) (tasks s')), s'))"

definition updateProject ::
  "store \<Rightarrow> string \<Rightarrow> projectUpdates \<Rightarrow> storeError + (project option \<times> store)" where
  "updateProject s pid updates =
    (if pu_percentComplete updates = None \<and> pu_roadblocks updates = None
     then Inl NoValuesToSet
     else
       let s' = s\<lparr>projects := map (\<lambda>p. if project_id p = pid
                                         then applyProjectUpdates updates p else p)
                                   (projects s)\<rparr>
       in Inr (first (filter (\<lambda>p. project_id p = pid) (projects s')), s'))"

subsection \<open>Completion aggregation\<close>

definition recalculateProjectCompletion :: "store \<Rightarrow> string \<Rightarrow> store" where
  "recalculateProjectCompletion s pid =
    (let projectTasks = filter (\<lambda>t. projectId t = pid) (tasks s);
         rootTasks = filter (\<lambda>t. \<not> truthy (parentTaskId t)) projectTasks
     in if length rootTasks = 0
        then s\<lparr>projects := map (\<lambda>p. if project_id p = pid
                                      then p\<lparr>project_percentComplete := 0\<rparr> else p) (projects s)\<rparr>
        else
          let totalPercent = foldl (\<lambda>sum t. sum + percentComplete t) 0 rootTasks;
              avgPercent = Math_round (real_of_int totalPercent / real (length rootTasks))
          in s\<lparr>projects := map (\<lambda>p. if project_id p = pid
                                       then p\<lparr>project_percentComplete := avgPercent\<rparr> else p)
                                 (projects s)\<rparr>)"

text \<open>
  \<open>recalculateParentTaskCompletion\<close> calls itself on the parent of the task it has just
  written. Nothing bounds the walk when the parent references form a cycle, so the
  function is partial: \<open>None\<close> is the call that never returns.
\<close>

partial_function (option) recalculateParentTaskCompletion :: "store \<Rightarrow> string \<Rightarrow> store option"
  where
  "recalculateParentTaskCompletion s tid =
    (case first (filter (\<lambda>t. task_id t = tid) (tasks s)) of
       None \<Rightarrow> Some s
     | Some parentTask \<Rightarrow>
         (let childRows = filter (\<lambda>t. parentTaskId t = Some tid) (tasks s) in
          if length childRows = 0 then Some s
          else
            let totalPercent = foldl (\<lambda>sum t. sum + percentComplete t) 0 childRows;
                avgPercent = Math_round (real_of_int totalPercent / real (length childRows));
                isCompleted' = (avgPercent = 100);
                s' = s\<lparr>tasks := map (\<lambda>t. if task_id t = tid
                    then t\<lparr>percentComplete := avgPercent,
                           isCompleted := isCompleted',
                           status := (if isCompleted' then ''completed''
                                      else if avgPercent > 0 then ''in-progress''
                                      else status parentTask)\<rparr>
                    else t) (tasks s)\<rparr>
            in if truthy (parentTaskId parentTask)
               then (case parentTaskId parentTask of
                       None \<Rightarrow> Some s'
                     | Some p \<Rightarrow> recalculateParentTaskCompletion s' p)
               else Some s'))"

declare recalculateParentTaskCompletion.simps [code]

subsection \<open>Task tree\<close>

text \<open>
  \<open>buildTaskTree\<close> filters the rows whose \<open>parentTaskId\<close> is \<open>parentId\<close> (strict
  equality, so \<open>null\<close> matches \<open>null\<close> only), sorts them by \<open>sortOrder\<close> (the comparator
  \<open>a.sortOrder - b.sortOrder\<close> under the stable \<open>Array.prototype.sort\<close>) and maps each row
  to itself with the tree built below it. \<open>buildTaskTrees\<close> is that \<open>map\<close>: it walks the
  sorted rows and builds the subtree of each. The recursion is not bounded by the code;
  \<open>None\<close> is the call that does not return.
\<close>

partial_function (option) buildTaskTrees ::
  "task list \<Rightarrow> task list \<Rightarrow> taskWithChildren list option"
  where
  "buildTaskTrees allTasks rows =
    (case rows of
       [] \<Rightarrow> Some []
     | t # rest \<Rightarrow>
         do {
           ch \<leftarrow> buildTaskTrees allTasks
                 (sort_key sortOrder (filter (\<lambda>c. parentTaskId c = Some (task_id t)) allTasks));
           others \<leftarrow> buildTaskTrees allTasks rest;
           Some (TaskWithChildren t ch # others)
         })"

declare buildTaskTrees.simps [code]

definition buildTaskTree :: "task list \<Rightarrow> string option \<Rightarrow> taskWithChildren list option" where
  "buildTaskTree allTasks parentId =
    buildTaskTrees allTasks (sort_key sortOrder (filter (\<lambda>t. parentTaskId t = parentId) allTasks))"

subsection \<open>Subtree deletion\<close>

text \<open>
  \<open>deleteTask\<close> selects the rows whose \<open>parentTaskId\<close> is the id, calls itself on each of
  them in turn, and then deletes the rows with the id. \<open>deleteTasks\<close> is the \<open>for\<close> loop
  over the ids of the selected rows, each iteration being one call of \<open>deleteTask\<close>.
\<close>

partial_function (option) deleteTasks :: "store \<Rightarrow> string list \<Rightarrow> store option" where
  "deleteTasks s ids =
    (case ids of
       [] \<Rightarrow> Some s
     | i # rest \<Rightarrow>
         do {
           s1 \<leftarrow> deleteTasks s (map task_id (filter (\<lambda>t. parentTaskId t = Some i) (tasks s)));
           deleteTasks (s1\<lparr>tasks := filter (\<lambda>t. task_id t \<noteq> i) (tasks s1)\<rparr>) rest
         })"

declare deleteTasks.simps [code]

definition deleteTask :: "store \<Rightarrow> string \<Rightarrow> store option" where
  "deleteTask s tid = deleteTasks s [tid]"

section \<open>Action interpreter\<close>

text \<open>
  One element of \<open>actionResult.actions\<close>, by its \<open>type\<close> field. A field that the JSON
  object does not carry is \<open>None\<close> (\<open>undefined\<close>); \<open>roadblocks\<close> may also be present and
  \<open>null\<close>, which is \<open>Some None\<close>.

  \<^item> \<open>create_project name description categoryId\<close>
  \<^item> \<open>create_task projectId name description parentTaskId\<close>
  \<^item> \<open>update_task taskId percentComplete isCompleted roadblocks\<close>
  \<^item> \<open>update_project projectId percentComplete roadblocks\<close>
  \<^item> \<open>other_action\<close>: any other \<open>type\<close>; no branch of the interpreter matches it.
\<close>

datatype action =
    create_project string "string option" "string option"
  | create_task "string option" string "string option" "string option"
  | update_task string "int option" "bool option" "string option option"
  | update_project string "int option" "string option option"
  | other_action

text \<open>
  The variables of the handler that the loop over the actions changes: the database,
  \<open>newlyCreatedProjectId\<close> and \<open>executedActions\<close>.
\<close>

record batch =
  db :: store
  newlyCreatedProjectId :: "string option"
  executedActions :: "string list"

text \<open>
  \<open>String.prototype.toLowerCase\<close> on the ASCII letters; other characters are kept.
\<close>

definition toLowerCase :: "string \<Rightarrow> string" where
  "toLowerCase = map (\<lambda>c. if 65 \<le> (of_char c :: nat) \<and> (of_char c :: nat) \<le> 90
                           then char_of (of_char c + 32 :: nat) else c)"

definition quoted :: "string \<Rightarrow> string" where
  "quoted x = [CHR 0x22] @ x @ [CHR 0x22]"

definition resolveCategoryId :: "category list \<Rightarrow> string option \<Rightarrow> string option" where
  "resolveCategoryId cats actionCategoryId =
    (let firstId = map_option category_id (first cats);
         resolvedCategoryId = orElse (orElse actionCategoryId firstId) None
     in case resolvedCategoryId of
          None \<Rightarrow> None
        | Some r \<Rightarrow>
            if r \<noteq> [] \<and> List.find (\<lambda>c. category_id c = r) cats = None
            then
              let matchedCategory = List.find (\<lambda>c. toLowerCase (category_name c) = toLowerCase r) cats
              in orElse (orElse (map_option category_id matchedCategory) firstId) None
            else resolvedCategoryId)"

text \<open>
  The object \<open>updates\<close> that the \<open>update_task\<close> branch builds from the action and the
  stored task.
\<close>

definition taskUpdatesOf :: "task \<Rightarrow> int option \<Rightarrow> bool option \<Rightarrow> string option option \<Rightarrow> taskUpdates"
  where
  "taskUpdatesOf existingTask actionPercent actionCompleted actionRoadblocks =
    (let updates0 = \<lparr>u_percentComplete = None, u_isCompleted = None, u_status = None,
                      u_roadblocks = None\<rparr>;
         updates1 = (case actionPercent of
                       None \<Rightarrow> updates0
                     | Some pc \<Rightarrow> updates0\<lparr>u_percentComplete := Some pc,
                                            u_isCompleted := Some (pc = 100),
                                            u_status := Some (if pc = 100 then ''completed''
                                                              else if pc > 0 then ''in-progress''
                                                              else ''pending'')\<rparr>);
         updates2 = (case actionCompleted of
                       None \<Rightarrow> updates1
                     | Some c \<Rightarrow> updates1\<lparr>u_isCompleted := Some c,
                                           u_percentComplete := Some (if c then 100
                                             else (case u_percentComplete updates1 of
                                                     None \<Rightarrow> percentComplete existingTask
                                                   | Some v \<Rightarrow> if v \<noteq> 0 then v
                                                              else percentComplete existingTask))\<rparr>)
     in case actionRoadblocks of
          None \<Rightarrow> updates2
        | Some r \<Rightarrow> updates2\<lparr>u_roadblocks := Some r\<rparr>)"

text \<open>
  The two calls that follow every write of a task: the parent cascade when the task has a
  truthy \<open>parentTaskId\<close>, then the project aggregate.
\<close>

definition recalculateAfter :: "store \<Rightarrow> task \<Rightarrow> store option" where
  "recalculateAfter s t =
    do {
      s1 \<leftarrow> (if truthy (parentTaskId t)
             then (case parentTaskId t of
                     None \<Rightarrow> Some s
                   | Some p \<Rightarrow> recalculateParentTaskCompletion s p)
             else Some s);
      Some (recalculateProjectCompletion s1 (projectId t))
    }"

text \<open>
  The statements inside \<open>try\<close> for one action. The result is \<open>Inr\<close> with the new state
  when the statements run to their end (also when a guard skips the action), and \<open>Inl\<close>
  with the error and the state reached so far when a storage call raises. It is \<open>None\<close>
  only when a cascade it starts never returns.
\<close>

definition actionBody ::
  "category list \<Rightarrow> batch \<Rightarrow> action \<Rightarrow> ((storeError \<times> batch) + batch) option" where
  "actionBody cats st a =
    (case a of
       create_project name description actionCategoryId \<Rightarrow>
         (let resolvedCategoryId = resolveCategoryId cats actionCategoryId;
              (proj, s1) = createProject (db st)
                 \<lparr>project_id = [], project_name = name,
                  project_description = orElse description None,
                  categoryId = resolvedCategoryId, project_status = ''active'',
                  project_percentComplete = 0, project_roadblocks = None,
                  project_aiSuggestions = None\<rparr>
          in Some (Inr (st\<lparr>db := s1, newlyCreatedProjectId := Some (project_id proj),
                           executedActions := executedActions st
                              @ [''Created project '' @ quoted (project_name proj)]\<rparr>)))
     | create_task actionProjectId name description actionParent \<Rightarrow>
         (let pid = (if actionProjectId = Some ''NEW_PROJECT'' \<and> truthy (newlyCreatedProjectId st)
                     then newlyCreatedProjectId st else actionProjectId)
          in if \<not> truthy pid \<or> pid = Some ''NEW_PROJECT'' then Some (Inr st)
             else (case pid of
                     None \<Rightarrow> Some (Inr st)
                   | Some p \<Rightarrow>
                       (let (t, s1) = createTask (db st)
                              \<lparr>task_id = [], projectId = p,
                               parentTaskId = orElse actionParent None, task_name = name,
                               task_description = orElse description None,
                               percentComplete = 0, isCompleted = False, status = ''pending'',
                               roadblocks = None, aiSuggestions = None, sortOrder = 0\<rparr>
                        in do {
                             s2 \<leftarrow> recalculateAfter s1 t;
                             Some (Inr (st\<lparr>db := s2, executedActions := executedActions st
                                             @ [''Created task '' @ quoted (task_name t)]\<rparr>))
                           })))
     | update_task taskId actionPercent actionCompleted actionRoadblocks \<Rightarrow>
         (case getTask (db st) taskId of
            None \<Rightarrow> Some (Inr st)
          | Some existingTask \<Rightarrow>
              (let updates = taskUpdatesOf existingTask actionPercent actionCompleted
                               actionRoadblocks
               in case updateTask (db st) taskId updates of
                    Inl e \<Rightarrow> Some (Inl (e, st))
                  | Inr (res, s1) \<Rightarrow>
                      do {
                        s2 \<leftarrow> (case res of None \<Rightarrow> Some s1 | Some t \<Rightarrow> recalculateAfter s1 t);
                        Some (Inr (st\<lparr>db := s2, executedActions := executedActions st
                                 @ [''Updated task '' @ quoted (task_name existingTask)]\<rparr>))
                      }))
     | update_project actionProjectId actionPercent actionRoadblocks \<Rightarrow>
         (case getProject (db st) actionProjectId of
            None \<Rightarrow> Some (Inr st)
          | Some existingProject \<Rightarrow>
              (let updates = \<lparr>pu_percentComplete = actionPercent,
                              pu_roadblocks = actionRoadblocks\<rparr>
               in case updateProject (db st) actionProjectId updates of
                    Inl e \<Rightarrow> Some (Inl (e, st))
                  | Inr (res, s1) \<Rightarrow>
                      Some (Inr (st\<lparr>db := s1, executedActions := executedActions st
                               @ [''Updated project ''
                                  @ quoted (project_name existingProject)]\<rparr>))))
     | other_action \<Rightarrow> Some (Inr st))"

text \<open>
  The body of the loop for one action: the \<open>try\<close> with its \<open>catch\<close>. An error that the
  statements raise is caught (and written to the console); the loop goes on from the
  state in which it was raised.
\<close>

definition executeAction :: "category list \<Rightarrow> batch \<Rightarrow> action \<Rightarrow> batch option" where
  "executeAction cats st a =
    (case actionBody cats st a of
       None \<Rightarrow> None
     | Some (Inl (e, st')) \<Rightarrow> Some st'
     | Some (Inr st') \<Rightarrow> Some st')"


text \<open>
  The state in which the loop starts: nothing created, nothing executed, the categories
  read from the store before the first action.
\<close>

definition startBatch :: "store \<Rightarrow> batch" where
  "startBatch s = \<lparr>db = s, newlyCreatedProjectId = None, executedActions = []\<rparr>"


section \<open>Notions used in the statements\<close>

text \<open>
  The direct children of a task, as the queries \<open>where(eq(tasks.parentTaskId, id))\<close> of
  \<open>deleteTask\<close> and \<open>recalculateParentTaskCompletion\<close> select them.
\<close>

definition childrenOf :: "store \<Rightarrow> string \<Rightarrow> task list" where
  "childrenOf s tid = filter (\<lambda>t. parentTaskId t = Some tid) (tasks s)"

text \<open>
  The root tasks of a project: its tasks without a parent reference, a reference being
  absent when the column is \<open>NULL\<close> or the empty string.
\<close>

definition rootTasksOf :: "store \<Rightarrow> string \<Rightarrow> task list" where
  "rootTasksOf s pid = filter (\<lambda>t. projectId t = pid \<and> \<not> truthy (parentTaskId t)) (tasks s)"

text \<open>
  The rounded mean of the \<open>percentComplete\<close> of a non-empty list of tasks, with the
  rounding of the library (\<open>round x\<close> is the nearest integer, a tie going up).
\<close>

definition roundedMean :: "task list \<Rightarrow> int" where
  "roundedMean ts = round (real_of_int (sum_list (map percentComplete ts)) / real (length ts))"

text \<open>
  Calling \<open>recalculateParentTaskCompletion\<close> on the same id \<open>n\<close> times in a row.
\<close>

fun recalculateParentTimes :: "nat \<Rightarrow> store \<Rightarrow> string \<Rightarrow> store option" where
  "recalculateParentTimes 0 s tid = Some s"
| "recalculateParentTimes (Suc n) s tid =
     do { s' \<leftarrow> recalculateParentTaskCompletion s tid; recalculateParentTimes n s' tid }"

subsection \<open>A sample store\<close>

definition sampleTask :: "string \<Rightarrow> string option \<Rightarrow> int \<Rightarrow> string \<Rightarrow> int \<Rightarrow> task" where
  "sampleTask i parent pc st ord =
    \<lparr>task_id = i, projectId = ''P1'', parentTaskId = parent, task_name = i,
     task_description = None, percentComplete = pc, isCompleted = (pc = 100), status = st,
     roadblocks = None, aiSuggestions = None, sortOrder = ord\<rparr>"

definition sampleProject :: project where
  "sampleProject =
    \<lparr>project_id = ''P1'', project_name = ''Website'', project_description = None,
     categoryId = None, project_status = ''active'', project_percentComplete = 10,
     project_roadblocks = None, project_aiSuggestions = None\<rparr>"

text \<open>
  Project \<open>P1\<close> with the roots \<open>A\<close> and \<open>D\<close>; \<open>B\<close> and \<open>C\<close> are children of \<open>A\<close>, and \<open>E\<close> is
  the only child of \<open>C\<close>.
\<close>

definition sampleStore :: store where
  "sampleStore =
    \<lparr>categories = [], projects = [sampleProject],
     tasks = [sampleTask ''A'' None 40 ''blocked'' 0,
              sampleTask ''B'' (Some ''A'') 100 ''completed'' 1,
              sampleTask ''C'' (Some ''A'') 50 ''blocked'' 0,
              sampleTask ''D'' None 25 ''in-progress'' 1,
              sampleTask ''E'' (Some ''C'') 80 ''blocked'' 0],
     idGen = (\<lambda>n. ''id-'' @ replicate n (CHR ''x'')), nextId = 0\<rparr>"

subsection \<open>The parent relation of a store\<close>

text \<open>
  \<open>childRel rows\<close> holds the pairs (parent id, child id) that the column \<open>parentTaskId\<close>
  of the rows records. The data model asks that these references never form a cycle,
  which is \<open>acyclic (childRel rows)\<close>.
\<close>

definition parentEdges :: "task list \<Rightarrow> (string \<times> string) list" where
  "parentEdges rows =
     concat (map (\<lambda>t. case parentTaskId t of None \<Rightarrow> [] | Some p \<Rightarrow> [(p, task_id t)]) rows)"

definition childRel :: "task list \<Rightarrow> (string \<times> string) set" where
  "childRel rows = set (parentEdges rows)"

text \<open>
  One step of the upward cascade: from a task id to the truthy \<open>parentTaskId\<close> of the
  row that \<open>getTask\<close> returns for it.
\<close>

definition parentStep :: "store \<Rightarrow> (string \<times> string) set" where
  "parentStep s = {(x, p). \<exists>t. getTask s x = Some t \<and> truthy (parentTaskId t)
                          \<and> parentTaskId t = Some p}"

text \<open>
  What the cascade writes into a row: the rounded mean of the children \<open>cs\<close>, the flag
  that this mean is 100, and the status "completed" for 100, "in-progress" for a positive
  mean, the status \<open>old\<close> otherwise. \<open>writeAggregate\<close> writes this into the rows with
  the id \<open>tid\<close>, \<open>old\<close> being the stored status of the task.
\<close>

definition aggregated :: "task list \<Rightarrow> string \<Rightarrow> task \<Rightarrow> task" where
  "aggregated cs old r =
     r\<lparr>percentComplete := roundedMean cs,
       isCompleted := (roundedMean cs = 100),
       status := (if roundedMean cs = 100 then ''completed''
                  else if roundedMean cs > 0 then ''in-progress''
                  else old)\<rparr>"

definition writeAggregate :: "store \<Rightarrow> string \<Rightarrow> task \<Rightarrow> store" where
  "writeAggregate s tid parentTask =
     s\<lparr>tasks := map (\<lambda>r. if task_id r = tid
                           then aggregated (childrenOf s tid) (status parentTask) r else r)
                    (tasks s)\<rparr>"

text \<open>
  \<open>sameOutside A s s'\<close>: the store \<open>s'\<close> has the rows of \<open>s\<close> in the same order with the
  same ids and parent references, the rows whose id is outside \<open>A\<close> are unchanged, and
  so is the rest of the store.
\<close>

definition sameOutside :: "string set \<Rightarrow> store \<Rightarrow> store \<Rightarrow> bool" where
  "sameOutside A s s' \<longleftrightarrow>
     (\<exists>f. tasks s' = map f (tasks s)
        \<and> (\<forall>r. task_id (f r) = task_id r \<and> parentTaskId (f r) = parentTaskId r)
        \<and> (\<forall>r. task_id r \<notin> A \<longrightarrow> f r = r))
     \<and> projects s' = projects s \<and> categories s' = categories s
     \<and> idGen s' = idGen s \<and> nextId s' = nextId s"

subsection \<open>Reading a task back after an action\<close>

text \<open>
  The row that \<open>getTask\<close> returns in the database an action leaves behind; \<open>None\<close> when
  the action does not return or no row has the id.
\<close>

definition storedTask :: "batch option \<Rightarrow> string \<Rightarrow> task option" where
  "storedTask r tid = (case r of None \<Rightarrow> None | Some st \<Rightarrow> getTask (db st) tid)"

subsection \<open>Notions about a batch\<close>





subsection \<open>A sample batch\<close>





subsection \<open>Subtrees\<close>

text \<open>
  The ids of the subtree below a task: the task id itself and every id reached from it
  by following parent references downwards.
\<close>

definition subtreeIds :: "task list \<Rightarrow> string \<Rightarrow> string set" where
  "subtreeIds rows tid = (childRel rows)\<^sup>* `` {tid}"

text \<open>
  The statement \<open>delete(tasks).where(eq(tasks.id, id))\<close>.
\<close>

definition deleteRows :: "store \<Rightarrow> string \<Rightarrow> store" where
  "deleteRows s tid = s\<lparr>tasks := filter (\<lambda>t. task_id t \<noteq> tid) (tasks s)\<rparr>"

subsection \<open>Forests\<close>

text \<open>
  All nodes of a tree, the node itself first, and all nodes of a forest.
\<close>

fun nodesOf :: "taskWithChildren \<Rightarrow> taskWithChildren list" where
  "nodesOf (TaskWithChildren t ch) = TaskWithChildren t ch # concat (map nodesOf ch)"

definition forestNodes :: "taskWithChildren list \<Rightarrow> taskWithChildren list" where
  "forestNodes forest = concat (map nodesOf forest)"

text \<open>
  \<open>ys\<close> is \<open>xs\<close> sorted ascending by \<open>key\<close> with ties kept in their original relative
  order: the same elements, the keys ascending, and for every key the elements with
  that key in the order they have in \<open>xs\<close>.
\<close>

definition stableSortedBy :: "('a \<Rightarrow> int) \<Rightarrow> 'a list \<Rightarrow> 'a list \<Rightarrow> bool" where
  "stableSortedBy key xs ys \<longleftrightarrow>
     mset ys = mset xs \<and> sorted (map key ys)
     \<and> (\<forall>k. filter (\<lambda>y. key y = k) ys = filter (\<lambda>y. key y = k) xs)"

text \<open>
  The rows that \<open>buildTaskTree\<close> puts below a parent id, in the order it gives them.
\<close>

definition sortedChildren :: "task list \<Rightarrow> string option \<Rightarrow> task list" where
  "sortedChildren allTasks parentId =
     sort_key sortOrder (filter (\<lambda>t. parentTaskId t = parentId) allTasks)"

text \<open>
  \<open>depthOf allTasks n t\<close>: the row \<open>t\<close> lies \<open>n\<close> parent references below a row without
  parent.
\<close>

inductive depthOf :: "task list \<Rightarrow> nat \<Rightarrow> task \<Rightarrow> bool" for allTasks where
  root: "t \<in> set allTasks \<Longrightarrow> parentTaskId t = None \<Longrightarrow> depthOf allTasks 0 t"
| child: "depthOf allTasks n p \<Longrightarrow> t \<in> set allTasks \<Longrightarrow> parentTaskId t = Some (task_id p)
          \<Longrightarrow> depthOf allTasks (Suc n) t"

text \<open>
  The pairs (child row, parent row) in which the parent row lies below a row without
  parent: the recursive calls of \<open>buildTaskTree\<close> that start from \<open>null\<close>.
\<close>

definition belowRooted :: "task list \<Rightarrow> (task \<times> task) set" where
  "belowRooted allTasks =
     {(c, p). (\<exists>n. depthOf allTasks n p) \<and> c \<in> set allTasks
              \<and> parentTaskId c = Some (task_id p)}"

text \<open>
  A task list with ties in \<open>sortOrder\<close> and with the task \<open>O\<close>, whose parent \<open>ghost\<close> is
  no task of the list.
\<close>

definition sampleRows :: "task list" where
  "sampleRows =
     [sampleTask ''X1'' None 0 ''pending'' 1,
      sampleTask ''X2'' None 0 ''pending'' 0,
      sampleTask ''X3'' None 0 ''pending'' 1,
      sampleTask ''K1'' (Some ''X1'') 0 ''pending'' 5,
      sampleTask ''O'' (Some ''ghost'') 0 ''pending'' 0,
      sampleTask ''K2'' (Some ''X1'') 0 ''pending'' 5]"

section \<open>Results about the aggregation\<close>

lemma foldl_add_percent:
  "foldl (\<lambda>sum t. sum + percentComplete t) a xs = a + sum_list (map percentComplete xs)"
  by (induction xs arbitrary: a) simp_all

lemma Math_round_is_round: "Math_round x = round x"
  by (simp add: Math_round_def round_def)

lemma Math_round_quotient:
  assumes "0 < n"
  shows "Math_round (real_of_int a / real n) = (2 * a + int n) div (2 * int n)"
proof -
  have "real_of_int a / real n + 1 / 2 = real_of_int (2 * a + int n) / real_of_int (2 * int n)"
    using assms by (simp add: field_simps)
  then have "Math_round (real_of_int a / real n)
      = \<lfloor>real_of_int (2 * a + int n) / real_of_int (2 * int n)\<rfloor>"
    by (simp add: Math_round_def)
  then show ?thesis
    by (simp only: floor_divide_of_int_eq)
qed


subsection \<open>The project aggregate\<close>

lemma map_project_id_absent:
  assumes "\<forall>p \<in> set ps. project_id p \<noteq> pid"
  shows "map (\<lambda>p. if project_id p = pid then f p else p) ps = ps"
  using assms by (induction ps) simp_all

lemma first_filter_map_if:
  assumes "\<And>x. key (f x) = key x"
  shows "first (filter (\<lambda>x. key x = k) (map (\<lambda>x. if key x = k then f x else x) xs))
         = map_option f (first (filter (\<lambda>x. key x = k) xs))"
  using assms by (induction xs) (simp_all add: first_def)

lemma first_filter_None: "first (filter P xs) = None \<longleftrightarrow> (\<forall>x \<in> set xs. \<not> P x)"
  by (induction xs) (simp_all add: first_def)

lemma recalculateProjectCompletion_eq:
  "recalculateProjectCompletion s pid =
     s\<lparr>projects := map (\<lambda>p. if project_id p = pid
          then p\<lparr>project_percentComplete :=
                 (if rootTasksOf s pid = [] then 0 else roundedMean (rootTasksOf s pid))\<rparr>
          else p) (projects s)\<rparr>"
proof -
  have roots: "filter (\<lambda>t. \<not> truthy (parentTaskId t)) (filter (\<lambda>t. projectId t = pid) (tasks s))
      = rootTasksOf s pid"
    by (simp add: rootTasksOf_def conj_commute)
  show ?thesis
    unfolding recalculateProjectCompletion_def Let_def roots
    by (simp add: roundedMean_def foldl_add_percent Math_round_is_round)
qed

text \<open>
  Claim C2. For every store and every project id, \<open>recalculateProjectCompletion\<close> writes
  the column \<open>percentComplete\<close> of the project and nothing else: the value written is 0
  when the project has no root task and the rounded mean of the root tasks'
  \<open>percentComplete\<close> otherwise. The value is written whatever the column held before, so
  an existing project reads back with exactly this value.
\<close>

theorem recalculateProjectCompletion_sets_rounded_mean:
  "recalculateProjectCompletion s pid =
     s\<lparr>projects := map (\<lambda>p. if project_id p = pid
          then p\<lparr>project_percentComplete :=
                 (if rootTasksOf s pid = [] then 0 else roundedMean (rootTasksOf s pid))\<rparr>
          else p) (projects s)\<rparr>
   \<and> (\<forall>p. getProject s pid = Some p \<longrightarrow>
        getProject (recalculateProjectCompletion s pid) pid =
          Some (p\<lparr>project_percentComplete :=
                   (if rootTasksOf s pid = [] then 0 else roundedMean (rootTasksOf s pid))\<rparr>))"
proof (intro conjI allI impI)
  show "recalculateProjectCompletion s pid =
     s\<lparr>projects := map (\<lambda>p. if project_id p = pid
          then p\<lparr>project_percentComplete :=
                 (if rootTasksOf s pid = [] then 0 else roundedMean (rootTasksOf s pid))\<rparr>
          else p) (projects s)\<rparr>"
    by (rule recalculateProjectCompletion_eq)
next
  fix p
  assume "getProject s pid = Some p"
  then show "getProject (recalculateProjectCompletion s pid) pid =
          Some (p\<lparr>project_percentComplete :=
                   (if rootTasksOf s pid = [] then 0 else roundedMean (rootTasksOf s pid))\<rparr>)"
    by (simp add: recalculateProjectCompletion_eq getProject_def first_filter_map_if)
qed

lemma sample_roots: "rootTasksOf sampleStore ''P1'' =
    [sampleTask ''A'' None 40 ''blocked'' 0, sampleTask ''D'' None 25 ''in-progress'' 1]"
  by (simp add: rootTasksOf_def sampleStore_def sampleTask_def truthy_def)

lemma roundedMean_quotient:
  "ts \<noteq> [] \<Longrightarrow> roundedMean ts =
     (2 * sum_list (map percentComplete ts) + int (length ts)) div (2 * int (length ts))"
  using Math_round_quotient [of "length ts" "sum_list (map percentComplete ts)"]
  by (simp add: roundedMean_def Math_round_is_round)

theorem recalculateProjectCompletion_sets_rounded_mean_witness:
  "getProject sampleStore ''P1'' = Some sampleProject
   \<and> rootTasksOf sampleStore ''P1'' \<noteq> []
   \<and> getProject (recalculateProjectCompletion sampleStore ''P1'') ''P1''
       = Some (sampleProject\<lparr>project_percentComplete := 33\<rparr>)"
proof -
  have g: "getProject sampleStore ''P1'' = Some sampleProject"
    by (simp add: getProject_def sampleStore_def sampleProject_def first_def)
  have m: "roundedMean (rootTasksOf sampleStore ''P1'') = 33"
    by (simp add: sample_roots roundedMean_quotient) (simp add: sampleTask_def)
  from recalculateProjectCompletion_sets_rounded_mean [of sampleStore "''P1''"] g
  have "getProject (recalculateProjectCompletion sampleStore ''P1'') ''P1'' =
          Some (sampleProject\<lparr>project_percentComplete :=
                   (if rootTasksOf sampleStore ''P1'' = [] then 0
                    else roundedMean (rootTasksOf sampleStore ''P1''))\<rparr>)"
    by blast
  then show ?thesis
    using g m by (simp add: sample_roots)
qed

subsection \<open>Missing ids and leaves\<close>

lemma recalculateParent_missing:
  assumes "getTask s tid = None"
  shows "recalculateParentTaskCompletion s tid = Some s"
  using assms
  by (subst recalculateParentTaskCompletion.simps) (simp add: getTask_def)

lemma recalculateParent_leaf:
  assumes "childrenOf s tid = []"
  shows "recalculateParentTaskCompletion s tid = Some s"
  using assms
  by (subst recalculateParentTaskCompletion.simps)
     (simp add: childrenOf_def split: option.split)

lemma recalculateParentTimes_leaf:
  assumes "childrenOf s tid = []"
  shows "recalculateParentTimes n s tid = Some s"
  using assms by (induction n) (simp_all add: recalculateParent_leaf)

lemma recalculateProject_missing:
  assumes "getProject s pid = None"
  shows "recalculateProjectCompletion s pid = s"
proof -
  from assms have "\<forall>p \<in> set (projects s). project_id p \<noteq> pid"
    by (simp add: getProject_def first_filter_None)
  then show ?thesis
    by (simp add: recalculateProjectCompletion_eq map_project_id_absent)
qed

text \<open>
  Claim C9. Neither aggregation raises on a missing id: called with a task id that no
  row carries, \<open>recalculateParentTaskCompletion\<close> returns and leaves the whole store as it
  was, and so does \<open>recalculateProjectCompletion\<close> with a project id that no row carries.
  Called on a task without children, \<open>recalculateParentTaskCompletion\<close> returns the store
  unchanged, and so does any number \<open>n\<close> of calls in a row.
\<close>

theorem recalculate_noop_on_missing_or_leaf:
  "(getTask s tid = None \<longrightarrow> recalculateParentTaskCompletion s tid = Some s)
   \<and> (getProject s pid = None \<longrightarrow> recalculateProjectCompletion s pid = s)
   \<and> (childrenOf s tid = [] \<longrightarrow>
        recalculateParentTaskCompletion s tid = Some s
        \<and> recalculateParentTimes n s tid = Some s)"
  by (simp add: recalculateParent_missing recalculateProject_missing recalculateParent_leaf
      recalculateParentTimes_leaf)

theorem recalculate_noop_on_missing_or_leaf_witness:
  "getTask sampleStore ''Z'' = None
   \<and> recalculateParentTaskCompletion sampleStore ''Z'' = Some sampleStore
   \<and> getProject sampleStore ''P9'' = None
   \<and> recalculateProjectCompletion sampleStore ''P9'' = sampleStore
   \<and> getTask sampleStore ''B'' = Some (sampleTask ''B'' (Some ''A'') 100 ''completed'' 1)
   \<and> childrenOf sampleStore ''B'' = []
   \<and> recalculateParentTaskCompletion sampleStore ''B'' = Some sampleStore
   \<and> recalculateParentTimes 2 sampleStore ''B'' = Some sampleStore"
proof -
  have a: "getTask sampleStore ''Z'' = None"
    by (simp add: getTask_def sampleStore_def sampleTask_def first_def)
  have b: "getProject sampleStore ''P9'' = None"
    by (simp add: getProject_def sampleStore_def sampleProject_def first_def)
  have c: "childrenOf sampleStore ''B'' = []"
    by (simp add: childrenOf_def sampleStore_def sampleTask_def)
  have d: "getTask sampleStore ''B'' = Some (sampleTask ''B'' (Some ''A'') 100 ''completed'' 1)"
    by (simp add: getTask_def sampleStore_def sampleTask_def first_def)
  show ?thesis
    using a b c d
      recalculate_noop_on_missing_or_leaf [of sampleStore "''Z''" "''P9''" 2]
      recalculate_noop_on_missing_or_leaf [of sampleStore "''B''" "''P9''" 2]
    by simp
qed

subsection \<open>The parent cascade\<close>

lemma childRel_iff:
  "(p, c) \<in> childRel rows \<longleftrightarrow> (\<exists>t \<in> set rows. task_id t = c \<and> parentTaskId t = Some p)"
  by (force simp: childRel_def parentEdges_def split: option.splits)

lemma first_filter_Some:
  "first (filter P xs) = Some x \<Longrightarrow> x \<in> set xs \<and> P x"
  by (induction xs) (auto simp: first_def split: if_splits)

lemma getTask_Some: "getTask s x = Some t \<Longrightarrow> t \<in> set (tasks s) \<and> task_id t = x"
  unfolding getTask_def by (drule first_filter_Some) simp

lemma parentStep_sub: "parentStep s \<subseteq> (childRel (tasks s))\<inverse>"
  by (force simp: parentStep_def childRel_iff dest: getTask_Some)

lemma finite_childRel: "finite (childRel rows)"
  by (simp add: childRel_def)

lemma recalc_body:
  "(case first (filter (\<lambda>t. task_id t = tid) (tasks s)) of
       None \<Rightarrow> Some s
     | Some parentTask \<Rightarrow>
         (let childRows = filter (\<lambda>t. parentTaskId t = Some tid) (tasks s) in
          if length childRows = 0 then Some s
          else
            let totalPercent = foldl (\<lambda>sum t. sum + percentComplete t) 0 childRows;
                avgPercent = Math_round (real_of_int totalPercent / real (length childRows));
                isCompleted' = (avgPercent = 100);
                s' = s\<lparr>tasks := map (\<lambda>t. if task_id t = tid
                    then t\<lparr>percentComplete := avgPercent,
                           isCompleted := isCompleted',
                           status := (if isCompleted' then ''completed''
                                      else if avgPercent > 0 then ''in-progress''
                                      else status parentTask)\<rparr>
                    else t) (tasks s)\<rparr>
            in if truthy (parentTaskId parentTask)
               then (case parentTaskId parentTask of
                       None \<Rightarrow> Some s'
                     | Some p \<Rightarrow> f s' p)
               else Some s'))
   = (case getTask s tid of
        None \<Rightarrow> Some s
      | Some t \<Rightarrow>
          if childrenOf s tid = [] then Some s
          else if truthy (parentTaskId t)
          then (case parentTaskId t of
                  None \<Rightarrow> Some (writeAggregate s tid t)
                | Some p \<Rightarrow> f (writeAggregate s tid t) p)
          else Some (writeAggregate s tid t))"
proof (cases "getTask s tid")
  case None
  then show ?thesis by (simp add: getTask_def)
next
  case (Some t)
  define m where "m = roundedMean (childrenOf s tid)"
  have m: "Math_round (real_of_int (foldl (\<lambda>sum t. sum + percentComplete t) 0
             (filter (\<lambda>t. parentTaskId t = Some tid) (tasks s)))
           / real (length (filter (\<lambda>t. parentTaskId t = Some tid) (tasks s)))) = m"
    by (simp add: m_def roundedMean_def childrenOf_def foldl_add_percent Math_round_is_round)
  have f: "first (filter (\<lambda>t. task_id t = tid) (tasks s)) = Some t"
    using Some by (simp add: getTask_def)
  show ?thesis
  proof (cases "childrenOf s tid = []")
    case True
    then show ?thesis using Some f by (simp add: childrenOf_def)
  next
    case False
    then have c: "length (filter (\<lambda>t. parentTaskId t = Some tid) (tasks s)) \<noteq> 0"
      by (simp add: childrenOf_def)
    show ?thesis
      apply (simp only: f c m Some False option.case Let_def if_False)
      apply (simp only: writeAggregate_def aggregated_def m_def [symmetric])
      done
  qed
qed

lemma recalc_unfold:
  "recalculateParentTaskCompletion s tid =
    (case getTask s tid of
        None \<Rightarrow> Some s
      | Some t \<Rightarrow>
          if childrenOf s tid = [] then Some s
          else if truthy (parentTaskId t)
          then (case parentTaskId t of
                  None \<Rightarrow> Some (writeAggregate s tid t)
                | Some p \<Rightarrow> recalculateParentTaskCompletion (writeAggregate s tid t) p)
          else Some (writeAggregate s tid t))"
  by (subst recalculateParentTaskCompletion.simps) (rule recalc_body)

lemma first_map: "first (map f xs) = map_option f (first xs)"
  by (cases xs) (simp_all add: first_def)

lemma sameOutside_refl: "sameOutside A s s"
  unfolding sameOutside_def by (intro conjI exI [of _ id]) simp_all

lemma sameOutside_mono: "sameOutside A s s' \<Longrightarrow> A \<subseteq> B \<Longrightarrow> sameOutside B s s'"
  unfolding sameOutside_def by blast

lemma sameOutside_trans:
  assumes "sameOutside A s s1" "sameOutside B s1 s2"
  shows "sameOutside (A \<union> B) s s2"
proof -
  from assms(1) obtain f where f: "tasks s1 = map f (tasks s)"
      "\<And>r. task_id (f r) = task_id r" "\<And>r. parentTaskId (f r) = parentTaskId r"
      "\<And>r. task_id r \<notin> A \<Longrightarrow> f r = r"
    unfolding sameOutside_def by blast
  from assms(2) obtain g where g: "tasks s2 = map g (tasks s1)"
      "\<And>r. task_id (g r) = task_id r" "\<And>r. parentTaskId (g r) = parentTaskId r"
      "\<And>r. task_id r \<notin> B \<Longrightarrow> g r = r"
    unfolding sameOutside_def by blast
  have "tasks s2 = map (g \<circ> f) (tasks s)"
    by (simp add: f(1) g(1))
  moreover have "\<forall>r. task_id ((g \<circ> f) r) = task_id r \<and> parentTaskId ((g \<circ> f) r) = parentTaskId r"
    by (simp add: f g)
  moreover have "\<forall>r. task_id r \<notin> A \<union> B \<longrightarrow> (g \<circ> f) r = r"
    by (simp add: f g)
  ultimately have "\<exists>h. tasks s2 = map h (tasks s)
        \<and> (\<forall>r. task_id (h r) = task_id r \<and> parentTaskId (h r) = parentTaskId r)
        \<and> (\<forall>r. task_id r \<notin> A \<union> B \<longrightarrow> h r = r)"
    by blast
  then show ?thesis
    using assms unfolding sameOutside_def by simp
qed

lemma sameOutside_getTask:
  assumes "sameOutside A s s'"
  shows "\<exists>f. getTask s' x = map_option f (getTask s x)
           \<and> (\<forall>r. task_id (f r) = task_id r \<and> parentTaskId (f r) = parentTaskId r)
           \<and> (\<forall>r. task_id r \<notin> A \<longrightarrow> f r = r)"
proof -
  from assms obtain f where f: "tasks s' = map f (tasks s)"
      "\<forall>r. task_id (f r) = task_id r \<and> parentTaskId (f r) = parentTaskId r"
      "\<forall>r. task_id r \<notin> A \<longrightarrow> f r = r"
    unfolding sameOutside_def by blast
  have "filter (\<lambda>t. task_id t = x) (map f (tasks s)) = map f (filter (\<lambda>t. task_id t = x) (tasks s))"
    using f(2) by (simp add: filter_map comp_def)
  then have "getTask s' x = map_option f (getTask s x)"
    by (simp add: getTask_def f(1) first_map)
  with f(2,3) show ?thesis by blast
qed

lemma sameOutside_getTask_same:
  assumes "sameOutside A s s'" "x \<notin> A"
  shows "getTask s' x = getTask s x"
proof -
  from sameOutside_getTask [OF assms(1), of x] obtain f where
    f: "getTask s' x = map_option f (getTask s x)" "\<forall>r. task_id r \<notin> A \<longrightarrow> f r = r"
    by blast
  show ?thesis
  proof (cases "getTask s x")
    case None
    then show ?thesis using f by simp
  next
    case (Some t)
    then have "task_id t = x" by (simp add: getTask_Some)
    with f Some assms(2) show ?thesis by simp
  qed
qed

lemma sameOutside_parentStep:
  assumes "sameOutside A s s'"
  shows "parentStep s' = parentStep s"
proof -
  have "\<And>x p. (x, p) \<in> parentStep s' \<longleftrightarrow> (x, p) \<in> parentStep s"
  proof -
    fix x p
    from sameOutside_getTask [OF assms, of x] obtain f where
      f: "getTask s' x = map_option f (getTask s x)" "\<forall>r. parentTaskId (f r) = parentTaskId r"
      by blast
    show "(x, p) \<in> parentStep s' \<longleftrightarrow> (x, p) \<in> parentStep s"
      using f by (cases "getTask s x") (auto simp: parentStep_def)
  qed
  then show ?thesis by auto
qed

lemma sameOutside_childRel:
  assumes "sameOutside A s s'"
  shows "childRel (tasks s') = childRel (tasks s)"
proof -
  from assms obtain f where f: "tasks s' = map f (tasks s)"
      "\<forall>r. task_id (f r) = task_id r \<and> parentTaskId (f r) = parentTaskId r"
    unfolding sameOutside_def by blast
  have "\<And>p c. (p, c) \<in> childRel (map f (tasks s)) \<longleftrightarrow> (p, c) \<in> childRel (tasks s)"
    using f(2) by (auto simp: childRel_iff)
  then show ?thesis unfolding f(1) by auto
qed

lemma sameOutside_childrenOf:
  assumes "sameOutside A s s'" "\<forall>c \<in> set (childrenOf s x). task_id c \<notin> A"
  shows "childrenOf s' x = childrenOf s x"
proof -
  from assms(1) obtain f where f: "tasks s' = map f (tasks s)"
      "\<forall>r. task_id (f r) = task_id r \<and> parentTaskId (f r) = parentTaskId r"
      "\<forall>r. task_id r \<notin> A \<longrightarrow> f r = r"
    unfolding sameOutside_def by blast
  have "childrenOf s' x = map f (childrenOf s x)"
    using f(2) by (simp add: childrenOf_def f(1) filter_map comp_def)
  also have "\<dots> = childrenOf s x"
    using assms(2) f(3) by (simp add: map_idI)
  finally show ?thesis .
qed

lemma aggregated_keeps [simp]:
  "task_id (aggregated cs old r) = task_id r"
  "parentTaskId (aggregated cs old r) = parentTaskId r"
  "projectId (aggregated cs old r) = projectId r"
  by (simp_all add: aggregated_def)

lemma writeAggregate_sameOutside: "sameOutside {tid} s (writeAggregate s tid t)"
  unfolding sameOutside_def writeAggregate_def
  apply (intro conjI)
      apply (rule exI [of _ "\<lambda>r. if task_id r = tid
                           then aggregated (childrenOf s tid) (status t) r else r"])
      apply (simp_all add: aggregated_def)
  done

lemmas recalc_raw_induct =
  recalculateParentTaskCompletion.raw_induct [rotated -1, consumes 1, case_names step]

lemma recalc_frame:
  assumes "recalculateParentTaskCompletion s p = Some s'"
  shows "sameOutside ((parentStep s)\<^sup>* `` {p}) s s'"
  using assms
proof (induction rule: recalc_raw_induct)
  case (step f s tid s')
  note body = step.hyps [unfolded recalc_body]
  show ?case
  proof (cases "getTask s tid")
    case None
    with body show ?thesis by (simp add: sameOutside_refl)
  next
    case (Some t)
    note t = this
    let ?W = "writeAggregate s tid t"
    have W: "sameOutside ((parentStep s)\<^sup>* `` {tid}) s ?W"
      by (rule sameOutside_mono [OF writeAggregate_sameOutside]) auto
    show ?thesis
    proof (cases "childrenOf s tid = [] ")
      case True
      with body t show ?thesis by (simp add: sameOutside_refl)
    next
      case False
      show ?thesis
      proof (cases "parentTaskId t")
        case None
        with body t False W show ?thesis by (simp add: truthy_def)
      next
        case (Some q)
        show ?thesis
        proof (cases "q = []")
          case True
          with body t False W Some show ?thesis by (simp add: truthy_def)
        next
          case nonempty: False
          with body t False Some have call: "f ?W q = Some s'"
            by (simp add: truthy_def)
          from step.IH [OF call]
          have "sameOutside ((parentStep ?W)\<^sup>* `` {q}) ?W s'" .
          then have "sameOutside ((parentStep s)\<^sup>* `` {q}) ?W s'"
            by (simp add: sameOutside_parentStep [OF writeAggregate_sameOutside])
          with W have "sameOutside ((parentStep s)\<^sup>* `` {tid} \<union> (parentStep s)\<^sup>* `` {q}) s s'"
            by (rule sameOutside_trans)
          moreover have "(tid, q) \<in> parentStep s"
            using t Some nonempty by (simp add: parentStep_def truthy_def)
          then have "(parentStep s)\<^sup>* `` {q} \<subseteq> (parentStep s)\<^sup>* `` {tid}"
            by (auto intro: converse_rtrancl_into_rtrancl)
          ultimately show ?thesis
            by (simp add: Un_absorb2)
        qed
      qed
    qed
  qed
qed

lemma recalc_step:
  assumes "getTask s tid = Some t" "childrenOf s tid \<noteq> []"
  shows "recalculateParentTaskCompletion s tid =
     (if truthy (parentTaskId t)
      then (case parentTaskId t of None \<Rightarrow> Some (writeAggregate s tid t)
            | Some p \<Rightarrow> recalculateParentTaskCompletion (writeAggregate s tid t) p)
      else Some (writeAggregate s tid t))"
  using assms by (simp add: recalc_unfold)

lemma parentStep_functional:
  "(x, p) \<in> parentStep s \<Longrightarrow> (x, q) \<in> parentStep s \<Longrightarrow> p = q"
  by (auto simp: parentStep_def)

lemma parentStep_rtrancl_cases:
  assumes "(x, a) \<in> (parentStep s)\<^sup>*" "(x, q) \<in> parentStep s"
  shows "a = x \<or> (q, a) \<in> (parentStep s)\<^sup>*"
  using assms(1)
proof (cases rule: converse_rtranclE)
  case base
  then show ?thesis by simp
next
  case (step y)
  with assms(2) have "y = q" by (blast dest: parentStep_functional)
  with step show ?thesis by simp
qed

lemma parentStep_rtrancl_childRel:
  assumes "(x, y) \<in> (parentStep s)\<^sup>*"
  shows "(y, x) \<in> (childRel (tasks s))\<^sup>*"
proof -
  have "(parentStep s)\<^sup>* \<subseteq> ((childRel (tasks s))\<inverse>)\<^sup>*"
    by (rule rtrancl_mono [OF parentStep_sub])
  with assms have "(x, y) \<in> ((childRel (tasks s))\<inverse>)\<^sup>*" by blast
  then show ?thesis by (simp add: rtrancl_converse)
qed

lemma acyclic_parentStep:
  assumes "acyclic (childRel (tasks s))"
  shows "wf ((parentStep s)\<inverse>)"
proof -
  have "acyclic ((childRel (tasks s))\<inverse>)" using assms by simp
  then have "acyclic (parentStep s)"
    by (rule acyclic_subset [OF _ parentStep_sub])
  moreover have "finite (parentStep s)"
    by (rule finite_subset [OF parentStep_sub]) (simp add: finite_childRel)
  ultimately show ?thesis
    by (rule finite_acyclic_wf_converse [rotated])
qed

lemma recalc_cycle:
  assumes "recalculateParentTaskCompletion s p = Some s'"
  shows "(p, p) \<notin> (parentStep s)\<^sup>+"
  using assms
proof (induction rule: recalc_raw_induct)
  case (step f s tid s')
  note body = step.hyps [unfolded recalc_body]
  show ?case
  proof
    assume cyc: "(tid, tid) \<in> (parentStep s)\<^sup>+"
    then obtain q where q: "(tid, q) \<in> parentStep s" "(q, tid) \<in> (parentStep s)\<^sup>*"
      by (blast dest: tranclD)
    from cyc obtain y where y: "(y, tid) \<in> parentStep s"
      by (blast dest: tranclD2)
    from q(1) obtain t where t: "getTask s tid = Some t" "truthy (parentTaskId t)"
        "parentTaskId t = Some q"
      by (auto simp: parentStep_def)
    from y obtain ty where "getTask s y = Some ty" "parentTaskId ty = Some tid"
      by (auto simp: parentStep_def)
    then have "ty \<in> set (childrenOf s tid)"
      by (auto simp: childrenOf_def dest: getTask_Some)
    then have "childrenOf s tid \<noteq> []" by auto
    with body t have "f (writeAggregate s tid t) q = Some s'"
      by simp
    from step.IH [OF this] have "(q, q) \<notin> (parentStep s)\<^sup>+"
      by (simp add: sameOutside_parentStep [OF writeAggregate_sameOutside])
    moreover from q have "(q, q) \<in> (parentStep s)\<^sup>+"
      by (rule rtrancl_into_trancl1 [rotated])
    ultimately show False by contradiction
  qed
qed

lemma getTask_writeAggregate:
  "getTask (writeAggregate s tid t) x =
     (if x = tid then map_option (aggregated (childrenOf s tid) (status t)) (getTask s tid)
      else getTask s x)"
proof (cases "x = tid")
  case True
  have "getTask (writeAggregate s tid t) tid =
      map_option (aggregated (childrenOf s tid) (status t)) (getTask s tid)"
    unfolding getTask_def writeAggregate_def
    by (simp add: first_filter_map_if [where key = task_id])
  with True show ?thesis by simp
next
  case False
  then show ?thesis
    using sameOutside_getTask_same [OF writeAggregate_sameOutside, of x tid s t] by simp
qed


lemma childRel_childrenOf:
  "c \<in> set (childrenOf s x) \<Longrightarrow> (x, task_id c) \<in> childRel (tasks s)"
  by (auto simp: childrenOf_def childRel_iff)

lemma acyclic_no_back:
  assumes "acyclic r" "(x, y) \<in> r" "(y, x) \<in> r\<^sup>*"
  shows False
proof -
  from assms(2,3) have "(x, x) \<in> r\<^sup>+" by (rule rtrancl_into_trancl2)
  with assms(1) show False by (simp add: acyclic_def)
qed

lemma recalc_chain:
  assumes wf: "wf ((parentStep s)\<inverse>)" and acyc: "acyclic (childRel (tasks s))"
  shows "\<lbrakk>parentStep s1 = parentStep s; childRel (tasks s1) = childRel (tasks s);
          getTask s1 tid = Some t; childrenOf s1 tid \<noteq> []\<rbrakk>
     \<Longrightarrow> \<exists>s'. recalculateParentTaskCompletion s1 tid = Some s'
           \<and> (\<forall>a ta. (tid, a) \<in> (parentStep s)\<^sup>* \<longrightarrow> getTask s1 a = Some ta \<longrightarrow>
                 getTask s' a = Some (aggregated (childrenOf s' a) (status ta) ta))"
  using wf
proof (induction tid arbitrary: s1 t rule: wf_induct_rule)
  case (less tid)
  let ?R = "parentStep s" and ?C = "childRel (tasks s)"
  let ?W = "writeAggregate s1 tid t"
  note t = \<open>getTask s1 tid = Some t\<close>
  have RW: "parentStep ?W = ?R"
    using less.prems(1) by (simp add: sameOutside_parentStep [OF writeAggregate_sameOutside])
  have CW: "childRel (tasks ?W) = ?C"
    using less.prems(2) by (simp add: sameOutside_childRel [OF writeAggregate_sameOutside])
  have kidsC: "\<And>c. c \<in> set (childrenOf s1 tid) \<Longrightarrow> (tid, task_id c) \<in> ?C"
    using less.prems(2) by (auto dest: childRel_childrenOf)
  have self: "\<And>c. c \<in> set (childrenOf s1 tid) \<Longrightarrow> task_id c \<noteq> tid"
  proof
    fix c assume "c \<in> set (childrenOf s1 tid)" "task_id c = tid"
    with kidsC have "(tid, tid) \<in> ?C" by fastforce
    with acyc show False by (rule acyclic_no_back) simp
  qed
  have kidsW: "childrenOf ?W tid = childrenOf s1 tid"
    by (rule sameOutside_childrenOf [OF writeAggregate_sameOutside]) (use self in blast)
  have tW: "getTask ?W tid = Some (aggregated (childrenOf ?W tid) (status t) t)"
    by (simp add: getTask_writeAggregate t kidsW)
  have step: "recalculateParentTaskCompletion s1 tid =
     (if truthy (parentTaskId t)
      then (case parentTaskId t of None \<Rightarrow> Some ?W
            | Some p \<Rightarrow> recalculateParentTaskCompletion ?W p)
      else Some ?W)"
    by (rule recalc_step [OF t less.prems(4)])
  show ?case
  proof (cases "truthy (parentTaskId t)")
    case False
    have only: "\<And>a. (tid, a) \<in> ?R\<^sup>* \<Longrightarrow> a = tid"
    proof -
      fix a assume "(tid, a) \<in> ?R\<^sup>*"
      then show "a = tid"
      proof (cases rule: converse_rtranclE)
        case base then show ?thesis by simp
      next
        case (step y)
        then have "(tid, y) \<in> parentStep s1" by (simp add: less.prems(1))
        with t False show ?thesis by (auto simp: parentStep_def)
      qed
    qed
    have "\<forall>a ta. (tid, a) \<in> ?R\<^sup>* \<longrightarrow> getTask s1 a = Some ta \<longrightarrow>
              getTask ?W a = Some (aggregated (childrenOf ?W a) (status ta) ta)"
    proof (intro allI impI)
      fix a ta assume a: "(tid, a) \<in> ?R\<^sup>*" "getTask s1 a = Some ta"
      then have "a = tid" using only by blast
      moreover from this a(2) t have "ta = t" by simp
      ultimately have "a = tid" "ta = t" by simp_all
      then show "getTask ?W a = Some (aggregated (childrenOf ?W a) (status ta) ta)"
        using tW by simp
    qed
    with False step show ?thesis by simp
  next
    case True
    then obtain q where q: "parentTaskId t = Some q" "q \<noteq> []"
      by (auto simp: truthy_def split: option.splits)
    have edge: "(tid, q) \<in> ?R"
      using t True q less.prems(1) [symmetric] by (auto simp: parentStep_def)
    have edgeC: "(q, tid) \<in> ?C"
      using edge parentStep_sub by blast
    have call: "recalculateParentTaskCompletion s1 tid = recalculateParentTaskCompletion ?W q"
      using step True q by simp
    have notback: "\<And>a. (q, a) \<in> ?R\<^sup>* \<Longrightarrow> a \<noteq> tid"
    proof
      fix a assume "(q, a) \<in> ?R\<^sup>*" "a = tid"
      then have "(tid, q) \<in> ?C\<^sup>*" by (simp add: parentStep_rtrancl_childRel)
      with acyc edgeC show False by (rule acyclic_no_back)
    qed
    have kidsout: "\<And>c. c \<in> set (childrenOf s1 tid) \<Longrightarrow> task_id c \<notin> ?R\<^sup>* `` {q}"
    proof
      fix c assume c: "c \<in> set (childrenOf s1 tid)" "task_id c \<in> ?R\<^sup>* `` {q}"
      then have "(task_id c, q) \<in> ?C\<^sup>*" by (simp add: parentStep_rtrancl_childRel)
      with edgeC have "(task_id c, tid) \<in> ?C\<^sup>*" by (rule rtrancl_into_rtrancl [rotated])
      with acyc kidsC [OF c(1)] show False by (rule acyclic_no_back)
    qed
    show ?thesis
    proof (cases "getTask ?W q")
      case None
      then have ret: "recalculateParentTaskCompletion ?W q = Some ?W"
        by (rule recalculateParent_missing)
      have noq: "getTask s1 q = None"
        using None notback [of q] by (simp add: getTask_writeAggregate)
      have only: "\<And>a ta. (tid, a) \<in> ?R\<^sup>* \<Longrightarrow> getTask s1 a = Some ta \<Longrightarrow> a = tid"
      proof -
        fix a ta assume a: "(tid, a) \<in> ?R\<^sup>*" "getTask s1 a = Some ta"
        from parentStep_rtrancl_cases [OF a(1) edge] show "a = tid"
        proof
          assume "(q, a) \<in> ?R\<^sup>*"
          then show ?thesis
          proof (cases rule: converse_rtranclE)
            case base with a(2) noq show ?thesis by simp
          next
            case (step y)
            then have "(q, y) \<in> parentStep s1" by (simp add: less.prems(1))
            with noq show ?thesis by (auto simp: parentStep_def)
          qed
        qed simp
      qed
      have "\<forall>a ta. (tid, a) \<in> ?R\<^sup>* \<longrightarrow> getTask s1 a = Some ta \<longrightarrow>
              getTask ?W a = Some (aggregated (childrenOf ?W a) (status ta) ta)"
      proof (intro allI impI)
        fix a ta assume a: "(tid, a) \<in> ?R\<^sup>*" "getTask s1 a = Some ta"
        then have "a = tid" using only by blast
        moreover from this a(2) t have "ta = t" by simp
        ultimately have "a = tid" "ta = t" by simp_all
        then show "getTask ?W a = Some (aggregated (childrenOf ?W a) (status ta) ta)"
          using tW by simp
      qed
      with call ret show ?thesis by simp
    next
      case (Some tq)
      have "getTask ?W tid = Some (aggregated (childrenOf s1 tid) (status t) t)"
        using tW kidsW by simp
      then have "aggregated (childrenOf s1 tid) (status t) t \<in> set (childrenOf ?W q)"
        using q by (auto simp: childrenOf_def dest: getTask_Some)
      then have kq: "childrenOf ?W q \<noteq> []" by auto
      have "(q, tid) \<in> (parentStep s)\<inverse>" using edge by simp
      from less.IH [OF this RW CW Some kq]
      obtain s' where s': "recalculateParentTaskCompletion ?W q = Some s'"
        and rest: "\<And>a ta. (q, a) \<in> ?R\<^sup>* \<Longrightarrow> getTask ?W a = Some ta \<Longrightarrow>
                 getTask s' a = Some (aggregated (childrenOf s' a) (status ta) ta)"
        by blast
      from recalc_frame [OF s'] have frame: "sameOutside (?R\<^sup>* `` {q}) ?W s'"
        by (simp add: RW)
      have "tid \<notin> ?R\<^sup>* `` {q}" using notback by auto
      then have g: "getTask s' tid = getTask ?W tid"
        by (rule sameOutside_getTask_same [OF frame])
      have k: "childrenOf s' tid = childrenOf ?W tid"
        by (rule sameOutside_childrenOf [OF frame]) (use kidsW kidsout in auto)
      have "\<And>a ta. (tid, a) \<in> ?R\<^sup>* \<Longrightarrow> getTask s1 a = Some ta \<Longrightarrow>
              getTask s' a = Some (aggregated (childrenOf s' a) (status ta) ta)"
      proof -
        fix a ta assume a: "(tid, a) \<in> ?R\<^sup>*" "getTask s1 a = Some ta"
        from parentStep_rtrancl_cases [OF a(1) edge]
        show "getTask s' a = Some (aggregated (childrenOf s' a) (status ta) ta)"
        proof
          assume "a = tid"
          with a(2) t g k tW show ?thesis by simp
        next
          assume qa: "(q, a) \<in> ?R\<^sup>*"
          then have "a \<noteq> tid" by (rule notback)
          then have "getTask ?W a = Some ta"
            using a(2) by (simp add: getTask_writeAggregate)
          with qa show ?thesis by (rule rest)
        qed
      qed
      with call s' show ?thesis by simp
    qed
  qed
qed


text \<open>
  Claim C1. In a store whose parent references form no cycle, take a task \<open>t\<close> with at
  least one direct child. Then \<open>recalculateParentTaskCompletion\<close> returns, and in the
  store it returns the task reads back with \<open>percentComplete\<close> equal to the rounded mean
  of its direct children's \<open>percentComplete\<close>, \<open>isCompleted\<close> equal to (mean = 100), and
  \<open>status\<close> "completed" for a mean of 100, "in-progress" for a positive mean and the
  status it had before otherwise. The call is the same as writing these columns and then,
  when the task has a (truthy) \<open>parentTaskId\<close>, calling the function on that parent; so
  every task on the chain of parents up to the root ends as the aggregate of its own
  children in the final store.
\<close>

theorem recalculateParentTaskCompletion_aggregates:
  assumes "acyclic (childRel (tasks s))"
      and "getTask s tid = Some t"
      and "childrenOf s tid \<noteq> []"
  shows "\<exists>s'. recalculateParentTaskCompletion s tid = Some s'
     \<and> getTask s' tid = Some (aggregated (childrenOf s tid) (status t) t)
     \<and> (\<forall>a ta. (tid, a) \<in> (parentStep s)\<^sup>* \<longrightarrow> getTask s a = Some ta \<longrightarrow>
           getTask s' a = Some (aggregated (childrenOf s' a) (status ta) ta))
     \<and> recalculateParentTaskCompletion s tid =
         (case parentTaskId t of
            None \<Rightarrow> Some (writeAggregate s tid t)
          | Some p \<Rightarrow> if p \<noteq> []
                      then recalculateParentTaskCompletion (writeAggregate s tid t) p
                      else Some (writeAggregate s tid t))"
proof -
  from recalc_chain [OF acyclic_parentStep [OF assms(1)] assms(1) refl refl assms(2,3)]
  obtain s' where s': "recalculateParentTaskCompletion s tid = Some s'"
    and chain: "\<And>a ta. (tid, a) \<in> (parentStep s)\<^sup>* \<Longrightarrow> getTask s a = Some ta \<Longrightarrow>
           getTask s' a = Some (aggregated (childrenOf s' a) (status ta) ta)"
    by blast
  have frame: "sameOutside ((parentStep s)\<^sup>* `` {tid}) s s'"
    by (rule recalc_frame [OF s'])
  have "\<forall>c \<in> set (childrenOf s tid). task_id c \<notin> (parentStep s)\<^sup>* `` {tid}"
  proof
    fix c assume c: "c \<in> set (childrenOf s tid)"
    show "task_id c \<notin> (parentStep s)\<^sup>* `` {tid}"
    proof
      assume "task_id c \<in> (parentStep s)\<^sup>* `` {tid}"
      then have "(task_id c, tid) \<in> (childRel (tasks s))\<^sup>*"
        by (simp add: parentStep_rtrancl_childRel)
      with assms(1) childRel_childrenOf [OF c] show False by (rule acyclic_no_back)
    qed
  qed
  with frame have "childrenOf s' tid = childrenOf s tid"
    by (rule sameOutside_childrenOf)
  with chain [OF rtrancl_refl assms(2)]
  have "getTask s' tid = Some (aggregated (childrenOf s tid) (status t) t)" by simp
  moreover have "recalculateParentTaskCompletion s tid =
         (case parentTaskId t of
            None \<Rightarrow> Some (writeAggregate s tid t)
          | Some p \<Rightarrow> if p \<noteq> []
                      then recalculateParentTaskCompletion (writeAggregate s tid t) p
                      else Some (writeAggregate s tid t))"
    by (simp add: recalc_step [OF assms(2,3)] truthy_def split: option.split)
  ultimately show ?thesis using s' chain by blast
qed

lemma acyclic_by_rank:
  fixes rank :: "'a \<Rightarrow> nat"
  assumes "\<And>p c. (p, c) \<in> r \<Longrightarrow> rank p < rank c"
  shows "acyclic r"
proof -
  have "r \<subseteq> (measure rank)"
    using assms by auto
  then have "wf r" by (rule wf_subset [OF wf_measure])
  then show ?thesis by (rule wf_acyclic)
qed

lemma sample_acyclic: "acyclic (childRel (tasks sampleStore))"
proof (rule acyclic_by_rank)
  fix p c assume "(p, c) \<in> childRel (tasks sampleStore)"
  then show "(if p = ''A'' then 0 else if p = ''C'' then 1 else (2::nat))
             < (if c = ''A'' then 0 else if c = ''C'' then 1 else 2)"
    by (auto simp: childRel_def parentEdges_def sampleStore_def sampleTask_def)
qed

lemma sample_recalc_C_store:
  "recalculateParentTaskCompletion sampleStore ''C'' =
     Some (sampleStore\<lparr>tasks :=
       [sampleTask ''A'' None 90 ''in-progress'' 0,
        sampleTask ''B'' (Some ''A'') 100 ''completed'' 1,
        sampleTask ''C'' (Some ''A'') 80 ''in-progress'' 0,
        sampleTask ''D'' None 25 ''in-progress'' 1,
        sampleTask ''E'' (Some ''C'') 80 ''blocked'' 0]\<rparr>)"
  by (simp add: recalc_unfold getTask_def childrenOf_def writeAggregate_def aggregated_def
      roundedMean_quotient sampleStore_def sampleTask_def first_def truthy_def)

theorem recalculateParentTaskCompletion_aggregates_witness:
  "acyclic (childRel (tasks sampleStore))
   \<and> getTask sampleStore ''C'' = Some (sampleTask ''C'' (Some ''A'') 50 ''blocked'' 0)
   \<and> childrenOf sampleStore ''C'' = [sampleTask ''E'' (Some ''C'') 80 ''blocked'' 0]
   \<and> (\<exists>s'. recalculateParentTaskCompletion sampleStore ''C'' = Some s'
         \<and> getTask s' ''C'' = Some (sampleTask ''C'' (Some ''A'') 80 ''in-progress'' 0)
         \<and> getTask s' ''A'' = Some (sampleTask ''A'' None 90 ''in-progress'' 0))"
proof -
  have g: "getTask sampleStore ''C'' = Some (sampleTask ''C'' (Some ''A'') 50 ''blocked'' 0)"
    by (simp add: getTask_def sampleStore_def sampleTask_def first_def)
  have k: "childrenOf sampleStore ''C'' = [sampleTask ''E'' (Some ''C'') 80 ''blocked'' 0]"
    by (simp add: childrenOf_def sampleStore_def sampleTask_def)
  then have k': "childrenOf sampleStore ''C'' \<noteq> []" by simp
  from recalculateParentTaskCompletion_aggregates [OF sample_acyclic g k']
  obtain s' where s': "recalculateParentTaskCompletion sampleStore ''C'' = Some s'"
    and c: "getTask s' ''C'' = Some (aggregated (childrenOf sampleStore ''C'') ''blocked''
                (sampleTask ''C'' (Some ''A'') 50 ''blocked'' 0))"
    by (auto simp: sampleTask_def)
  have "getTask s' ''C'' = Some (sampleTask ''C'' (Some ''A'') 80 ''in-progress'' 0)"
    unfolding c k by (simp add: aggregated_def roundedMean_quotient sampleTask_def)
  moreover have "getTask s' ''A'' = Some (sampleTask ''A'' None 90 ''in-progress'' 0)"
    using s' unfolding sample_recalc_C_store
    by (auto simp: getTask_def sampleStore_def sampleTask_def first_def)
  ultimately show ?thesis
    using sample_acyclic g k s' by blast
qed

section \<open>Results about the action interpreter\<close>

subsection \<open>Updating a task\<close>

lemma recalc_total:
  assumes "acyclic (childRel (tasks s))"
  shows "\<exists>s'. recalculateParentTaskCompletion s p = Some s'"
proof (cases "getTask s p")
  case None
  then show ?thesis by (simp add: recalculateParent_missing)
next
  case (Some t)
  show ?thesis
  proof (cases "childrenOf s p = []")
    case True
    then show ?thesis by (simp add: recalculateParent_leaf)
  next
    case False
    from recalc_chain [OF acyclic_parentStep [OF assms] assms refl refl Some False]
    show ?thesis by blast
  qed
qed

lemma recalc_keeps_child:
  assumes "recalculateParentTaskCompletion s p = Some s'"
      and "getTask s x = Some t" "truthy (parentTaskId t)" "parentTaskId t = Some p"
  shows "getTask s' x = getTask s x"
proof -
  have edge: "(x, p) \<in> parentStep s"
    using assms(2-4) by (auto simp: parentStep_def)
  have "x \<notin> (parentStep s)\<^sup>* `` {p}"
  proof
    assume "x \<in> (parentStep s)\<^sup>* `` {p}"
    then have "(p, x) \<in> (parentStep s)\<^sup>*" by simp
    then have "(p, p) \<in> (parentStep s)\<^sup>+" using edge by (rule rtrancl_into_trancl1)
    with recalc_cycle [OF assms(1)] show False by contradiction
  qed
  with recalc_frame [OF assms(1)] show ?thesis
    by (rule sameOutside_getTask_same)
qed

lemma recalculateProject_tasks [simp]: "tasks (recalculateProjectCompletion s pid) = tasks s"
  by (simp add: recalculateProjectCompletion_eq)

lemma getTask_recalculateProject [simp]:
  "getTask (recalculateProjectCompletion s pid) x = getTask s x"
  by (simp add: getTask_def)

lemma recalculateAfter_keeps:
  assumes "acyclic (childRel (tasks s))" "getTask s x = Some t"
  shows "\<exists>s'. recalculateAfter s t = Some s' \<and> getTask s' x = Some t"
proof (cases "truthy (parentTaskId t)")
  case False
  then show ?thesis using assms(2) by (simp add: recalculateAfter_def)
next
  case True
  then obtain p where p: "parentTaskId t = Some p"
    by (auto simp: truthy_def split: option.splits)
  from recalc_total [OF assms(1)] obtain s1 where
    s1: "recalculateParentTaskCompletion s p = Some s1" by blast
  from recalc_keeps_child [OF s1 assms(2) True p] assms(2)
  have "getTask s1 x = Some t" by simp
  with True p s1 show ?thesis by (simp add: recalculateAfter_def)
qed

lemma applyTaskUpdates_keeps [simp]:
  "task_id (applyTaskUpdates u t) = task_id t"
  "parentTaskId (applyTaskUpdates u t) = parentTaskId t"
  "projectId (applyTaskUpdates u t) = projectId t"
  by (simp_all add: applyTaskUpdates_def)

lemma caught_bind:
  "(case x \<bind> (\<lambda>s2. Some (Inr (f s2))) of
      None \<Rightarrow> None
    | Some (Inl (e, st')) \<Rightarrow> Some st'
    | Some (Inr st') \<Rightarrow> Some st')
   = x \<bind> (\<lambda>s2. Some (f s2))"
  by (cases x) simp_all

lemma executeAction_create_project:
  "executeAction cats st (create_project name description actionCategoryId) =
     (let (proj, s1) = createProject (db st)
                 \<lparr>project_id = [], project_name = name,
                  project_description = orElse description None,
                  categoryId = resolveCategoryId cats actionCategoryId,
                  project_status = ''active'',
                  project_percentComplete = 0, project_roadblocks = None,
                  project_aiSuggestions = None\<rparr>
      in Some (st\<lparr>db := s1, newlyCreatedProjectId := Some (project_id proj),
                  executedActions := executedActions st
                     @ [''Created project '' @ quoted (project_name proj)]\<rparr>))"
  by (simp add: executeAction_def actionBody_def Let_def split_beta)

lemma executeAction_create_task:
  "executeAction cats st (create_task actionProjectId name description actionParent) =
     (let pid = (if actionProjectId = Some ''NEW_PROJECT'' \<and> truthy (newlyCreatedProjectId st)
                 then newlyCreatedProjectId st else actionProjectId)
      in if \<not> truthy pid \<or> pid = Some ''NEW_PROJECT'' then Some st
         else (case pid of
                 None \<Rightarrow> Some st
               | Some p \<Rightarrow>
                   (let (t, s1) = createTask (db st)
                          \<lparr>task_id = [], projectId = p,
                           parentTaskId = orElse actionParent None, task_name = name,
                           task_description = orElse description None,
                           percentComplete = 0, isCompleted = False, status = ''pending'',
                           roadblocks = None, aiSuggestions = None, sortOrder = 0\<rparr>
                    in recalculateAfter s1 t \<bind>
                         (\<lambda>s2. Some (st\<lparr>db := s2, executedActions := executedActions st
                                        @ [''Created task '' @ quoted (task_name t)]\<rparr>)))))"
  by (simp add: executeAction_def actionBody_def Let_def split_beta caught_bind
      split: option.split)

lemma executeAction_update_task_eq:
  "executeAction cats st (update_task taskId actionPercent actionCompleted actionRoadblocks) =
     (case getTask (db st) taskId of
        None \<Rightarrow> Some st
      | Some existingTask \<Rightarrow>
          (case updateTask (db st) taskId
                  (taskUpdatesOf existingTask actionPercent actionCompleted actionRoadblocks) of
             Inl e \<Rightarrow> Some st
           | Inr (res, s1) \<Rightarrow>
               (case res of None \<Rightarrow> Some s1 | Some t \<Rightarrow> recalculateAfter s1 t) \<bind>
                 (\<lambda>s2. Some (st\<lparr>db := s2, executedActions := executedActions st
                           @ [''Updated task '' @ quoted (task_name existingTask)]\<rparr>))))"
proof (cases "getTask (db st) taskId")
  case None
  then show ?thesis by (simp add: executeAction_def actionBody_def)
next
  case (Some existingTask)
  show ?thesis
  proof (cases "updateTask (db st) taskId
                  (taskUpdatesOf existingTask actionPercent actionCompleted actionRoadblocks)")
    case (Inl e)
    with Some show ?thesis by (simp add: executeAction_def actionBody_def)
  next
    case (Inr r)
    obtain res s1 where "r = (res, s1)" by (cases r)
    with Some Inr show ?thesis
      by (simp add: executeAction_def actionBody_def caught_bind)
  qed
qed

lemma executeAction_update_project_eq:
  "executeAction cats st (update_project actionProjectId actionPercent actionRoadblocks) =
     (case getProject (db st) actionProjectId of
        None \<Rightarrow> Some st
      | Some existingProject \<Rightarrow>
          (case updateProject (db st) actionProjectId
                  \<lparr>pu_percentComplete = actionPercent, pu_roadblocks = actionRoadblocks\<rparr> of
             Inl e \<Rightarrow> Some st
           | Inr (res, s1) \<Rightarrow>
               Some (st\<lparr>db := s1, executedActions := executedActions st
                         @ [''Updated project '' @ quoted (project_name existingProject)]\<rparr>)))"
  by (simp add: executeAction_def actionBody_def Let_def
      split: option.split sum.split prod.split)

lemma executeAction_other: "executeAction cats st other_action = Some st"
  by (simp add: executeAction_def actionBody_def)

lemmas executeAction_simps =
  executeAction_create_project executeAction_create_task executeAction_update_task_eq
  executeAction_update_project_eq executeAction_other

lemma updateTask_Inr:
  assumes "updateTask s tid u = Inr (res, s1)"
  shows "sameOutside {tid} s s1"
    and "res = map_option (applyTaskUpdates u) (getTask s tid)"
    and "getTask s1 tid = map_option (applyTaskUpdates u) (getTask s tid)"
proof -
  from assms have s1: "s1 = s\<lparr>tasks := map (\<lambda>t. if task_id t = tid then applyTaskUpdates u t
                                             else t) (tasks s)\<rparr>"
    and res: "res = first (filter (\<lambda>t. task_id t = tid) (tasks s1))"
    by (auto simp: updateTask_def Let_def split: if_splits)
  show "sameOutside {tid} s s1"
    unfolding sameOutside_def s1
    apply (intro conjI)
        apply (rule exI [of _ "\<lambda>r. if task_id r = tid then applyTaskUpdates u r else r"])
        apply simp_all
    done
  show "getTask s1 tid = map_option (applyTaskUpdates u) (getTask s tid)"
    unfolding s1 by (simp add: getTask_def first_filter_map_if [where key = task_id])
  then show "res = map_option (applyTaskUpdates u) (getTask s tid)"
    by (simp add: res getTask_def)
qed

lemma taskUpdatesOf_fields:
  "u_percentComplete (taskUpdatesOf t pc c rb) = None
     \<and> u_isCompleted (taskUpdatesOf t pc c rb) = None
     \<and> u_status (taskUpdatesOf t pc c rb) = None
     \<and> u_roadblocks (taskUpdatesOf t pc c rb) = None
   \<longleftrightarrow> pc = None \<and> c = None \<and> rb = None"
  by (simp add: taskUpdatesOf_def Let_def split: option.split)


lemma updateTask_writes:
  assumes "pc \<noteq> None \<or> c \<noteq> None \<or> rb \<noteq> None"
  shows "\<exists>res s1. updateTask s tid (taskUpdatesOf t pc c rb) = Inr (res, s1)"
  using assms by (auto simp: updateTask_def taskUpdatesOf_fields Let_def)




lemma executeAction_update_task:
  assumes "acyclic (childRel (tasks (db st)))" and "getTask (db st) tid = Some t"
      and "pc \<noteq> None \<or> c \<noteq> None \<or> rb \<noteq> None"
  shows "\<exists>st'. executeAction cats st (update_task tid pc c rb) = Some st'
           \<and> getTask (db st') tid = Some (applyTaskUpdates (taskUpdatesOf t pc c rb) t)
           \<and> executedActions st' = executedActions st
                @ [''Updated task '' @ quoted (task_name t)]"
proof -
  define u where "u = taskUpdatesOf t pc c rb"
  define t1 where "t1 = applyTaskUpdates u t"
  from updateTask_writes [OF assms(3), of "db st" tid t] obtain res s1 where
    upd: "updateTask (db st) tid u = Inr (res, s1)"
    unfolding u_def by blast
  note r = updateTask_Inr [OF upd]
  have res: "res = Some t1"
    using r(2) assms(2) by (simp add: t1_def)
  have g1: "getTask s1 tid = Some t1"
    using r(3) assms(2) by (simp add: t1_def)
  have "acyclic (childRel (tasks s1))"
    using assms(1) by (simp add: sameOutside_childRel [OF r(1)])
  from recalculateAfter_keeps [OF this g1] obtain s2 where
    s2: "recalculateAfter s1 t1 = Some s2" "getTask s2 tid = Some t1" by blast
  have "executeAction cats st (update_task tid pc c rb) =
      Some (st\<lparr>db := s2, executedActions := executedActions st
                               @ [''Updated task '' @ quoted (task_name t)]\<rparr>)"
    using assms(2) upd res s2(1)
    by (simp add: executeAction_update_task_eq u_def [symmetric])
  then show ?thesis
    using s2(2) by (simp add: t1_def u_def)
qed

lemma sample_getTask_E:
  "getTask (db (startBatch sampleStore)) ''E'' = Some (sampleTask ''E'' (Some ''C'') 80 ''blocked'' 0)"
  by (simp add: startBatch_def getTask_def sampleStore_def sampleTask_def first_def)

lemma sample_batch_acyclic: "acyclic (childRel (tasks (db (startBatch sampleStore))))"
  by (simp add: startBatch_def sample_acyclic)

text \<open>
  Claim C3, as amended. In a store whose parent references form no cycle, an
  \<open>update_task\<close> action on an existing task that supplies \<open>isCompleted\<close> completes, and
  the task then reads back with \<open>isCompleted\<close> equal to the supplied value, whatever
  \<open>percentComplete\<close> would derive. When the supplied \<open>isCompleted\<close> is true the stored
  \<open>percentComplete\<close> is 100, also when the action supplies a \<open>percentComplete\<close> of its own;
  when it is false, a supplied \<open>percentComplete\<close> other than 0 is stored as given and the
  stored value is kept otherwise.
\<close>

theorem update_task_explicit_isCompleted:
  assumes "acyclic (childRel (tasks (db st)))" and "getTask (db st) tid = Some t"
  shows "\<exists>st' t'. executeAction cats st (update_task tid pc (Some c) rb) = Some st'
           \<and> getTask (db st') tid = Some t'
           \<and> isCompleted t' = c
           \<and> percentComplete t' =
               (if c then 100
                else case pc of None \<Rightarrow> percentComplete t
                     | Some v \<Rightarrow> if v \<noteq> 0 then v else percentComplete t)"
proof -
  from executeAction_update_task [OF assms, of pc "Some c" rb cats]
  obtain st' where st': "executeAction cats st (update_task tid pc (Some c) rb) = Some st'"
      "getTask (db st') tid = Some (applyTaskUpdates (taskUpdatesOf t pc (Some c) rb) t)"
    by blast
  have "isCompleted (applyTaskUpdates (taskUpdatesOf t pc (Some c) rb) t) = c"
    by (simp add: applyTaskUpdates_def taskUpdatesOf_def Let_def split: option.split)
  moreover have "percentComplete (applyTaskUpdates (taskUpdatesOf t pc (Some c) rb) t) =
               (if c then 100
                else case pc of None \<Rightarrow> percentComplete t
                     | Some v \<Rightarrow> if v \<noteq> 0 then v else percentComplete t)"
    by (simp add: applyTaskUpdates_def taskUpdatesOf_def Let_def split: option.split)
  ultimately show ?thesis using st' by blast
qed

theorem update_task_explicit_isCompleted_witness:
  "acyclic (childRel (tasks (db (startBatch sampleStore))))
   \<and> getTask (db (startBatch sampleStore)) ''E''
       = Some (sampleTask ''E'' (Some ''C'') 80 ''blocked'' 0)
   \<and> (\<exists>st' t'. executeAction [] (startBatch sampleStore)
                  (update_task ''E'' (Some 30) (Some False) None) = Some st'
         \<and> getTask (db st') ''E'' = Some t' \<and> isCompleted t' = False
         \<and> percentComplete t' = 30)"
  using update_task_explicit_isCompleted [OF sample_batch_acyclic sample_getTask_E,
      of "[]" "Some 30" False None]
    sample_batch_acyclic sample_getTask_E
  by simp

text \<open>
  Counterexample to claim C3 as stated: on the leaf \<open>E\<close> of the sample store, the action that
  supplies \<open>percentComplete\<close> 50 together with \<open>isCompleted\<close> true stores 100, not the
  supplied 50.
\<close>

theorem update_task_explicit_percent_overwritten:
  "map_option percentComplete
     (storedTask (executeAction [] (startBatch sampleStore)
                    (update_task ''E'' (Some 50) (Some True) None)) ''E'') = Some 100"
proof -
  from executeAction_update_task [OF sample_batch_acyclic sample_getTask_E,
      of "Some 50" "Some True" None "[]"]
  obtain st' where "executeAction [] (startBatch sampleStore)
                    (update_task ''E'' (Some 50) (Some True) None) = Some st'"
      "getTask (db st') ''E'' = Some (applyTaskUpdates
          (taskUpdatesOf (sampleTask ''E'' (Some ''C'') 80 ''blocked'' 0) (Some 50) (Some True) None)
          (sampleTask ''E'' (Some ''C'') 80 ''blocked'' 0))"
    by blast
  then show ?thesis
    by (simp add: storedTask_def applyTaskUpdates_def taskUpdatesOf_def)
qed

text \<open>
  Claim C4, as amended. In a store whose parent references form no cycle, an
  \<open>update_task\<close> action that supplies \<open>percentComplete\<close> 0 on an existing task completes,
  and the task then reads back with the status "pending", whatever status it had before.
\<close>

theorem update_task_zero_percent_sets_pending:
  assumes "acyclic (childRel (tasks (db st)))" and "getTask (db st) tid = Some t"
  shows "\<exists>st' t'. executeAction cats st (update_task tid (Some 0) c rb) = Some st'
           \<and> getTask (db st') tid = Some t'
           \<and> status t' = ''pending''"
proof -
  from executeAction_update_task [OF assms, of "Some 0" c rb cats]
  obtain st' where st': "executeAction cats st (update_task tid (Some 0) c rb) = Some st'"
      "getTask (db st') tid = Some (applyTaskUpdates (taskUpdatesOf t (Some 0) c rb) t)"
    by blast
  have "status (applyTaskUpdates (taskUpdatesOf t (Some 0) c rb) t) = ''pending''"
    by (simp add: applyTaskUpdates_def taskUpdatesOf_def Let_def split: option.split)
  with st' show ?thesis by blast
qed

theorem update_task_zero_percent_sets_pending_witness:
  "acyclic (childRel (tasks (db (startBatch sampleStore))))
   \<and> getTask (db (startBatch sampleStore)) ''E''
       = Some (sampleTask ''E'' (Some ''C'') 80 ''blocked'' 0)
   \<and> (\<exists>st' t'. executeAction [] (startBatch sampleStore)
                  (update_task ''E'' (Some 0) None (Some None)) = Some st'
         \<and> getTask (db st') ''E'' = Some t' \<and> status t' = ''pending'')"
  using update_task_zero_percent_sets_pending [OF sample_batch_acyclic sample_getTask_E,
      of "[]" None "Some None"]
    sample_batch_acyclic sample_getTask_E
  by simp

text \<open>
  Counterexample to claim C4 as stated: the leaf \<open>E\<close> of the sample store has the status "blocked",
  and the action that supplies \<open>percentComplete\<close> 0 leaves it with the status "pending".
\<close>

theorem update_task_zero_percent_drops_custom_status:
  "map_option status (getTask sampleStore ''E'') = Some ''blocked''
   \<and> map_option status
       (storedTask (executeAction [] (startBatch sampleStore)
                      (update_task ''E'' (Some 0) None None)) ''E'') = Some ''pending''"
proof -
  from executeAction_update_task [OF sample_batch_acyclic sample_getTask_E,
      of "Some 0" None None "[]"]
  obtain st' where "executeAction [] (startBatch sampleStore)
                    (update_task ''E'' (Some 0) None None) = Some st'"
      "getTask (db st') ''E'' = Some (applyTaskUpdates
          (taskUpdatesOf (sampleTask ''E'' (Some ''C'') 80 ''blocked'' 0) (Some 0) None None)
          (sampleTask ''E'' (Some ''C'') 80 ''blocked'' 0))"
    by blast
  moreover have "map_option status (getTask sampleStore ''E'') = Some ''blocked''"
    using sample_getTask_E by (simp add: startBatch_def sampleTask_def)
  ultimately show ?thesis
    by (simp add: storedTask_def applyTaskUpdates_def taskUpdatesOf_def)
qed

text \<open>
  Claim C10. In a store whose parent references form no cycle, an \<open>update_task\<close> action
  on an existing task that supplies \<open>isCompleted\<close> false together with
  \<open>percentComplete\<close> 0 completes, and the task then reads back with the
  \<open>percentComplete\<close> it had before the action, not with 0.
\<close>

theorem update_task_false_zero_keeps_percent:
  assumes "acyclic (childRel (tasks (db st)))" and "getTask (db st) tid = Some t"
  shows "\<exists>st' t'. executeAction cats st (update_task tid (Some 0) (Some False) rb) = Some st'
           \<and> getTask (db st') tid = Some t'
           \<and> percentComplete t' = percentComplete t"
proof -
  from executeAction_update_task [OF assms, of "Some 0" "Some False" rb cats]
  obtain st' where st':
      "executeAction cats st (update_task tid (Some 0) (Some False) rb) = Some st'"
      "getTask (db st') tid = Some (applyTaskUpdates (taskUpdatesOf t (Some 0) (Some False) rb) t)"
    by blast
  have "percentComplete (applyTaskUpdates (taskUpdatesOf t (Some 0) (Some False) rb) t)
      = percentComplete t"
    by (simp add: applyTaskUpdates_def taskUpdatesOf_def Let_def split: option.split)
  with st' show ?thesis by blast
qed

theorem update_task_false_zero_keeps_percent_witness:
  "acyclic (childRel (tasks (db (startBatch sampleStore))))
   \<and> getTask (db (startBatch sampleStore)) ''E''
       = Some (sampleTask ''E'' (Some ''C'') 80 ''blocked'' 0)
   \<and> (\<exists>st' t'. executeAction [] (startBatch sampleStore)
                  (update_task ''E'' (Some 0) (Some False) None) = Some st'
         \<and> getTask (db st') ''E'' = Some t' \<and> percentComplete t' = 80)"
  using update_task_false_zero_keeps_percent [OF sample_batch_acyclic sample_getTask_E,
      of "[]" None]
    sample_batch_acyclic sample_getTask_E
  by (simp add: sampleTask_def)

subsection \<open>The batch loop\<close>









subsection \<open>The placeholder project id\<close>


























section \<open>Results about subtree deletion\<close>

lemmas deleteTasks_raw_induct =
  deleteTasks.raw_induct [rotated -1, consumes 1, case_names step]

lemma deleteTasks_Nil [simp]: "deleteTasks s [] = Some s"
  by (subst deleteTasks.simps) simp

lemma deleteTasks_step:
  "deleteTasks s (i # rest) =
     deleteTasks s (map task_id (childrenOf s i)) \<bind> (\<lambda>s1. deleteTasks (deleteRows s1 i) rest)"
  by (subst deleteTasks.simps) (simp add: childrenOf_def deleteRows_def)

lemma deleteTask_unfold:
  "deleteTask s tid =
     deleteTasks s (map task_id (childrenOf s tid)) \<bind> (\<lambda>s1. Some (deleteRows s1 tid))"
  by (simp add: deleteTask_def deleteTasks_step)

lemma deleteTasks_Cons:
  "deleteTasks s (i # rest) = deleteTask s i \<bind> (\<lambda>s'. deleteTasks s' rest)"
  by (simp add: deleteTask_unfold deleteTasks_step)

lemma set_child_ids: "task_id ` set (childrenOf s i) = childRel (tasks s) `` {i}"
  by (auto simp: childrenOf_def childRel_iff)

lemma rtrancl_Image_step: "r\<^sup>* `` {i} = insert i (r\<^sup>* `` (r `` {i}))"
proof -
  have "\<And>x. (i, x) \<in> r\<^sup>* \<longleftrightarrow> x = i \<or> (\<exists>c. (i, c) \<in> r \<and> (c, x) \<in> r\<^sup>*)"
    by (metis converse_rtranclE converse_rtrancl_into_rtrancl rtrancl.rtrancl_refl)
  then show ?thesis by auto
qed

lemma childRel_filter_sub: "childRel (filter P rows) \<subseteq> childRel rows"
  by (auto simp: childRel_iff)

lemma reach_after_removal:
  assumes closed: "childRel rows `` D \<subseteq> D"
      and path: "(r, x) \<in> (childRel rows)\<^sup>*" and out: "x \<notin> D"
  shows "(r, x) \<in> (childRel (filter (\<lambda>t. task_id t \<notin> D) rows))\<^sup>*"
  using path out
proof (induction rule: rtrancl_induct)
  case base
  show ?case by simp
next
  case (step y z)
  from step.hyps(2) step.prems closed have "y \<notin> D" by blast
  then have "(r, y) \<in> (childRel (filter (\<lambda>t. task_id t \<notin> D) rows))\<^sup>*"
    by (rule step.IH)
  moreover from step.hyps(2) step.prems
  have "(y, z) \<in> childRel (filter (\<lambda>t. task_id t \<notin> D) rows)"
    by (auto simp: childRel_iff)
  ultimately show ?case by (rule rtrancl_into_rtrancl)
qed

lemma reach_removed_iff:
  assumes "childRel rows `` D \<subseteq> D" "x \<notin> D"
  shows "x \<in> (childRel (filter (\<lambda>t. task_id t \<notin> D) rows))\<^sup>* `` R
         \<longleftrightarrow> x \<in> (childRel rows)\<^sup>* `` R"
proof
  assume "x \<in> (childRel (filter (\<lambda>t. task_id t \<notin> D) rows))\<^sup>* `` R"
  then show "x \<in> (childRel rows)\<^sup>* `` R"
    using rtrancl_mono [OF childRel_filter_sub [of "\<lambda>t. task_id t \<notin> D" rows]] by blast
next
  assume "x \<in> (childRel rows)\<^sup>* `` R"
  then show "x \<in> (childRel (filter (\<lambda>t. task_id t \<notin> D) rows))\<^sup>* `` R"
    using reach_after_removal [OF assms(1) _ assms(2)] by blast
qed

lemma deleteTasks_result:
  assumes "deleteTasks s ids = Some s'"
  shows "tasks s' = filter (\<lambda>t. task_id t \<notin> (childRel (tasks s))\<^sup>* `` set ids) (tasks s)
         \<and> projects s' = projects s \<and> categories s' = categories s
         \<and> idGen s' = idGen s \<and> nextId s' = nextId s"
  using assms
proof (induction rule: deleteTasks_raw_induct)
  case (step f s ids s')
  show ?case
  proof (cases ids)
    case Nil
    with step.hyps show ?thesis by simp
  next
    case (Cons i rest)
    let ?C = "childRel (tasks s)"
    define D where "D = ?C\<^sup>* `` {i}"
    from step.hyps Cons obtain s1 where
      s1: "f s (map task_id (childrenOf s i)) = Some s1"
      and s': "f (deleteRows s1 i) rest = Some s'"
      by (auto simp: bind_eq_Some_conv childrenOf_def deleteRows_def)
    note one = step.IH [OF s1] and two = step.IH [OF s']
    have D: "\<And>x. x \<notin> D \<longleftrightarrow> x \<notin> ?C\<^sup>* `` (?C `` {i}) \<and> x \<noteq> i"
      unfolding D_def by (subst rtrancl_Image_step) blast
    have "tasks (deleteRows s1 i) =
        filter (\<lambda>t. task_id t \<noteq> i) (filter (\<lambda>t. task_id t \<notin> ?C\<^sup>* `` (?C `` {i})) (tasks s))"
      using one by (simp add: deleteRows_def set_child_ids)
    also have "\<dots> = filter (\<lambda>t. task_id t \<notin> D) (tasks s)"
      by (simp add: D conj_commute)
    finally have mid: "tasks (deleteRows s1 i) = filter (\<lambda>t. task_id t \<notin> D) (tasks s)" .
    have closed: "?C `` D \<subseteq> D"
      unfolding D_def by (auto intro: rtrancl_into_rtrancl)
    have "tasks s' = filter (\<lambda>t. task_id t \<notin> (childRel (tasks (deleteRows s1 i)))\<^sup>* `` set rest)
                      (filter (\<lambda>t. task_id t \<notin> D) (tasks s))"
      using two by (simp add: mid)
    also have "\<dots> = filter (\<lambda>t. task_id t \<notin> ?C\<^sup>* `` set rest)
                      (filter (\<lambda>t. task_id t \<notin> D) (tasks s))"
      unfolding mid
      by (rule filter_cong [OF refl]) (simp add: reach_removed_iff [OF closed])
    also have "\<dots> = filter (\<lambda>t. task_id t \<notin> ?C\<^sup>* `` set (i # rest)) (tasks s)"
      unfolding D_def by (auto intro: filter_cong)
    finally have "tasks s' = filter (\<lambda>t. task_id t \<notin> ?C\<^sup>* `` set ids) (tasks s)"
      by (simp add: Cons)
    moreover have "projects s' = projects s \<and> categories s' = categories s
         \<and> idGen s' = idGen s \<and> nextId s' = nextId s"
      using one two by (simp add: deleteRows_def)
    ultimately show ?thesis by simp
  qed
qed


lemma deleteTask_result:
  assumes "deleteTask s tid = Some s'"
  shows "tasks s' = filter (\<lambda>t. task_id t \<notin> subtreeIds (tasks s) tid) (tasks s)"
    and "projects s' = projects s" "categories s' = categories s"
    "idGen s' = idGen s" "nextId s' = nextId s"
  using deleteTasks_result [of s "[tid]" s'] assms
  by (simp_all add: deleteTask_def subtreeIds_def)

lemma childRel_mono: "set xs \<subseteq> set ys \<Longrightarrow> childRel xs \<subseteq> childRel ys"
  by (fastforce simp: childRel_iff)

lemma deleteTasks_total_list:
  assumes "\<And>i s1. i \<in> set ids \<Longrightarrow> set (tasks s1) \<subseteq> set (tasks s)
             \<Longrightarrow> \<exists>s'. deleteTask s1 i = Some s'"
  shows "set (tasks s1) \<subseteq> set (tasks s) \<Longrightarrow> \<exists>s'. deleteTasks s1 ids = Some s'"
  using assms
proof (induction ids arbitrary: s1)
  case Nil
  show ?case by simp
next
  case (Cons i rest)
  from Cons.prems(2) [of i s1] Cons.prems(1) obtain s2 where
    s2: "deleteTask s1 i = Some s2" by auto
  from deleteTask_result(1) [OF s2] Cons.prems(1) have "set (tasks s2) \<subseteq> set (tasks s)"
    by auto
  from Cons.IH [OF this] Cons.prems(2) obtain s' where "deleteTasks s2 rest = Some s'"
    by auto
  with s2 show ?case by (simp add: deleteTasks_Cons)
qed

lemma deleteTask_total:
  assumes "acyclic (childRel (tasks s))"
  shows "set (tasks s1) \<subseteq> set (tasks s) \<Longrightarrow> \<exists>s'. deleteTask s1 i = Some s'"
proof -
  have "wf ((childRel (tasks s))\<inverse>)"
    using finite_childRel assms by (rule finite_acyclic_wf_converse)
  then show "set (tasks s1) \<subseteq> set (tasks s) \<Longrightarrow> \<exists>s'. deleteTask s1 i = Some s'"
  proof (induction i arbitrary: s1 rule: wf_induct_rule)
    case (less i)
    have "\<exists>s'. deleteTasks s1 (map task_id (childrenOf s1 i)) = Some s'"
    proof (rule deleteTasks_total_list [OF _ less.prems])
      fix c and s2 :: store
      assume c: "c \<in> set (map task_id (childrenOf s1 i))"
        and sub: "set (tasks s2) \<subseteq> set (tasks s)"
      from c have "(i, c) \<in> childRel (tasks s1)"
        by (auto dest: childRel_childrenOf)
      with childRel_mono [OF less.prems] have "(c, i) \<in> (childRel (tasks s))\<inverse>" by auto
      from less.IH [OF this sub] show "\<exists>s'. deleteTask s2 c = Some s'" .
    qed
    then show ?case by (auto simp: deleteTask_unfold)
  qed
qed

text \<open>
  Claim C8. In a store whose parent references form no cycle, \<open>deleteTask\<close> returns for
  every task id, and the tasks it leaves are the tasks of the store without the rows
  whose id lies in the subtree of the id: the task and all its descendants are removed
  and no other task is; the rest of the store is unchanged. A task without children is
  removed alone. The children are deleted before the task itself: the call is the loop
  over the children followed by the deletion of the rows of the task, and each iteration
  of the loop is \<open>deleteTask\<close> on one child.
\<close>

theorem deleteTask_removes_subtree:
  assumes "acyclic (childRel (tasks s))"
  shows "\<exists>s'. deleteTask s tid = Some s'
           \<and> tasks s' = filter (\<lambda>t. task_id t \<notin> subtreeIds (tasks s) tid) (tasks s)
           \<and> s' = s\<lparr>tasks := tasks s'\<rparr>
           \<and> (childrenOf s tid = [] \<longrightarrow> tasks s' = filter (\<lambda>t. task_id t \<noteq> tid) (tasks s))
           \<and> deleteTask s tid =
               deleteTasks s (map task_id (childrenOf s tid))
                 \<bind> (\<lambda>s1. Some (deleteRows s1 tid))
           \<and> (\<forall>c cs s0. deleteTasks s0 (c # cs) = deleteTask s0 c \<bind> (\<lambda>s1. deleteTasks s1 cs))"
proof -
  from deleteTask_total [OF assms subset_refl] obtain s' where
    s': "deleteTask s tid = Some s'" by blast
  note r = deleteTask_result [OF s']
  have leaf: "tasks s' = filter (\<lambda>t. task_id t \<noteq> tid) (tasks s)" if "childrenOf s tid = []"
  proof -
    from that have "deleteTask s tid = Some (deleteRows s tid)"
      by (simp add: deleteTask_unfold)
    with s' have "s' = deleteRows s tid" by simp
    then show ?thesis by (simp add: deleteRows_def)
  qed
  have "s' = s\<lparr>tasks := tasks s'\<rparr>"
    using r(2-5) by simp
  with s' r(1) leaf show ?thesis
    by (auto simp: deleteTask_unfold deleteTasks_Cons)
qed


lemma sample_delete_A:
  "deleteTask sampleStore ''A'' =
     Some (sampleStore\<lparr>tasks := [sampleTask ''D'' None 25 ''in-progress'' 1]\<rparr>)"
  by (simp add: deleteTask_unfold deleteTasks_step childrenOf_def deleteRows_def
      sampleStore_def sampleTask_def)

lemma sample_delete_B:
  "deleteTask sampleStore ''B'' =
     Some (sampleStore\<lparr>tasks := [sampleTask ''A'' None 40 ''blocked'' 0,
              sampleTask ''C'' (Some ''A'') 50 ''blocked'' 0,
              sampleTask ''D'' None 25 ''in-progress'' 1,
              sampleTask ''E'' (Some ''C'') 80 ''blocked'' 0]\<rparr>)"
  by (simp add: deleteTask_unfold deleteTasks_step childrenOf_def deleteRows_def
      sampleStore_def sampleTask_def)

theorem deleteTask_removes_subtree_witness:
  "acyclic (childRel (tasks sampleStore))
   \<and> (\<exists>s'. deleteTask sampleStore ''A'' = Some s'
         \<and> tasks s' = filter (\<lambda>t. task_id t \<notin> subtreeIds (tasks sampleStore) ''A'')
                         (tasks sampleStore)
         \<and> tasks s' = [sampleTask ''D'' None 25 ''in-progress'' 1])
   \<and> childrenOf sampleStore ''B'' = []
   \<and> (\<exists>s'. deleteTask sampleStore ''B'' = Some s'
         \<and> tasks s' = filter (\<lambda>t. task_id t \<noteq> ''B'') (tasks sampleStore)
         \<and> map task_id (tasks s') = [''A'', ''C'', ''D'', ''E''])"
proof -
  from deleteTask_removes_subtree [OF sample_acyclic, of "''A''"]
  obtain s' where s': "deleteTask sampleStore ''A'' = Some s'"
    and t: "tasks s' = filter (\<lambda>t. task_id t \<notin> subtreeIds (tasks sampleStore) ''A'')
                         (tasks sampleStore)"
    by blast
  from s' have "s' = sampleStore\<lparr>tasks := [sampleTask ''D'' None 25 ''in-progress'' 1]\<rparr>"
    by (simp add: sample_delete_A)
  then have "tasks s' = [sampleTask ''D'' None 25 ''in-progress'' 1]" by simp
  with s' t have a: "\<exists>s'. deleteTask sampleStore ''A'' = Some s'
         \<and> tasks s' = filter (\<lambda>t. task_id t \<notin> subtreeIds (tasks sampleStore) ''A'')
                         (tasks sampleStore)
         \<and> tasks s' = [sampleTask ''D'' None 25 ''in-progress'' 1]"
    by (intro exI [of _ s'] conjI)
  have leaf: "childrenOf sampleStore ''B'' = []"
    by (simp add: childrenOf_def sampleStore_def sampleTask_def)
  from deleteTask_removes_subtree [OF sample_acyclic, of "''B''"] leaf
  obtain s2 where s2: "deleteTask sampleStore ''B'' = Some s2"
    and t2: "tasks s2 = filter (\<lambda>t. task_id t \<noteq> ''B'') (tasks sampleStore)"
    by blast
  from s2 have "map task_id (tasks s2) = [''A'', ''C'', ''D'', ''E'']"
    unfolding sample_delete_B by (auto simp: sampleTask_def)
  with s2 t2 have b: "\<exists>s'. deleteTask sampleStore ''B'' = Some s'
         \<and> tasks s' = filter (\<lambda>t. task_id t \<noteq> ''B'') (tasks sampleStore)
         \<and> map task_id (tasks s') = [''A'', ''C'', ''D'', ''E'']"
    by (intro exI [of _ s2] conjI)
  from sample_acyclic a leaf b show ?thesis by (intro conjI)
qed

section \<open>Results about the task tree\<close>

lemmas buildTaskTrees_raw_induct =
  buildTaskTrees.raw_induct [rotated -1, consumes 1, case_names step]

lemma buildTaskTrees_Nil [simp]: "buildTaskTrees allTasks [] = Some []"
  by (subst buildTaskTrees.simps) simp

lemma buildTaskTrees_Cons:
  "buildTaskTrees allTasks (t # rest) =
     buildTaskTrees allTasks (sortedChildren allTasks (Some (task_id t))) \<bind>
       (\<lambda>ch. buildTaskTrees allTasks rest \<bind> (\<lambda>others. Some (TaskWithChildren t ch # others)))"
  by (subst buildTaskTrees.simps) (simp add: sortedChildren_def)

lemma buildTaskTree_eq:
  "buildTaskTree allTasks parentId = buildTaskTrees allTasks (sortedChildren allTasks parentId)"
  by (simp add: buildTaskTree_def sortedChildren_def)

lemma stableSortedBy_sortedChildren:
  "stableSortedBy sortOrder (filter (\<lambda>t. parentTaskId t = parentId) allTasks)
     (sortedChildren allTasks parentId)"
  by (simp add: stableSortedBy_def sortedChildren_def sorted_sort_key sort_key_stable)

lemma set_sortedChildren:
  "set (sortedChildren allTasks parentId) = {t \<in> set allTasks. parentTaskId t = parentId}"
  by (simp add: sortedChildren_def)

lemma forestNodes_simps [simp]:
  "forestNodes [] = []"
  "forestNodes (TaskWithChildren t ch # others)
     = TaskWithChildren t ch # forestNodes ch @ forestNodes others"
  by (simp_all add: forestNodes_def)

lemma buildTaskTrees_result:
  assumes "buildTaskTrees allTasks rows = Some forest"
  shows "map node_task forest = rows
         \<and> (\<forall>n \<in> set (forestNodes forest).
               map node_task (children n)
               = sortedChildren allTasks (Some (task_id (node_task n))))"
  using assms
proof (induction rule: buildTaskTrees_raw_induct)
  case (step f allTasks rows forest)
  show ?case
  proof (cases rows)
    case Nil
    with step.hyps show ?thesis by simp
  next
    case (Cons t rest)
    with step.hyps obtain ch others where
      ch: "f allTasks (sortedChildren allTasks (Some (task_id t))) = Some ch"
      and others: "f allTasks rest = Some others"
      and forest: "forest = TaskWithChildren t ch # others"
      by (auto simp: bind_eq_Some_conv sortedChildren_def)
    from step.IH [OF ch] step.IH [OF others] show ?thesis
      by (auto simp: forest Cons)
  qed
qed


lemma depthOf_member: "depthOf allTasks n t \<Longrightarrow> t \<in> set allTasks"
  by (induction rule: depthOf.induct) simp_all

lemma depthOf_unique:
  assumes "distinct (map task_id allTasks)"
  shows "depthOf allTasks n t \<Longrightarrow> depthOf allTasks m t \<Longrightarrow> n = m"
proof (induction arbitrary: m rule: depthOf.induct)
  case (root t)
  from root.prems root.hyps show ?case
    by (cases rule: depthOf.cases) simp_all
next
  case (child n p t)
  from child.prems show ?case
  proof (cases rule: depthOf.cases)
    case root
    with child.hyps show ?thesis by simp
  next
    case (child m' p')
    with child.hyps have "task_id p = task_id p'" by simp
    moreover have "p \<in> set allTasks" "p' \<in> set allTasks"
      using child.hyps(1) child(2) by (auto dest: depthOf_member)
    ultimately have "p = p'"
      using assms by (auto simp: distinct_map dest: inj_onD)
    with child(2) have "depthOf allTasks m' p" by simp
    from child.IH [OF this] child(1) show ?thesis by simp
  qed
qed

lemma belowRooted_trancl_depth:
  assumes "(c, p) \<in> (belowRooted allTasks)\<^sup>+"
  shows "\<exists>n m. depthOf allTasks n c \<and> depthOf allTasks m p \<and> m < n"
  using assms
proof (induction rule: converse_trancl_induct)
  case (base y)
  then obtain m where "depthOf allTasks m p" "y \<in> set allTasks"
      "parentTaskId y = Some (task_id p)"
    by (auto simp: belowRooted_def)
  then have "depthOf allTasks (Suc m) y \<and> depthOf allTasks m p \<and> m < Suc m"
    by (auto intro: depthOf.child)
  then show ?case by blast
next
  case (step y z)
  from step.IH obtain n m where nm: "depthOf allTasks n z" "depthOf allTasks m p" "m < n"
    by blast
  from step.hyps(1) have "y \<in> set allTasks" "parentTaskId y = Some (task_id z)"
    by (auto simp: belowRooted_def)
  with nm(1) have "depthOf allTasks (Suc n) y" by (auto intro: depthOf.child)
  with nm(2,3) have "depthOf allTasks (Suc n) y \<and> depthOf allTasks m p \<and> m < Suc n"
    by simp
  then show ?case by blast
qed

lemma wf_belowRooted:
  assumes "distinct (map task_id allTasks)"
  shows "wf (belowRooted allTasks)"
proof (rule finite_acyclic_wf)
  have "belowRooted allTasks \<subseteq> set allTasks \<times> set allTasks"
    by (auto simp: belowRooted_def dest: depthOf_member)
  then show "finite (belowRooted allTasks)"
    by (rule finite_subset) simp
  show "acyclic (belowRooted allTasks)"
  proof (rule acyclicI, rule allI, rule notI)
    fix x assume "(x, x) \<in> (belowRooted allTasks)\<^sup>+"
    from belowRooted_trancl_depth [OF this] obtain n m where
      "depthOf allTasks n x" "depthOf allTasks m x" "m < n" by blast
    with depthOf_unique [OF assms] show False by blast
  qed
qed

lemma buildTaskTrees_total_list:
  assumes "\<And>t. t \<in> set rows \<Longrightarrow>
             \<exists>ch. buildTaskTrees allTasks (sortedChildren allTasks (Some (task_id t))) = Some ch"
  shows "\<exists>forest. buildTaskTrees allTasks rows = Some forest"
  using assms
proof (induction rows)
  case Nil
  show ?case by simp
next
  case (Cons t rest)
  from Cons.prems [of t] obtain ch where
    "buildTaskTrees allTasks (sortedChildren allTasks (Some (task_id t))) = Some ch" by auto
  moreover from Cons.IH Cons.prems obtain others where
    "buildTaskTrees allTasks rest = Some others" by auto
  ultimately show ?case by (simp add: buildTaskTrees_Cons)
qed

lemma buildTaskTrees_total_below:
  assumes "distinct (map task_id allTasks)" and "depthOf allTasks n t"
  shows "\<exists>ch. buildTaskTrees allTasks (sortedChildren allTasks (Some (task_id t))) = Some ch"
  using wf_belowRooted [OF assms(1)] assms(2)
proof (induction t arbitrary: n rule: wf_induct_rule)
  case (less t)
  show ?case
  proof (rule buildTaskTrees_total_list)
    fix c assume "c \<in> set (sortedChildren allTasks (Some (task_id t)))"
    then have c: "c \<in> set allTasks" "parentTaskId c = Some (task_id t)"
      by (simp_all add: set_sortedChildren)
    with less.prems have "(c, t) \<in> belowRooted allTasks"
      by (auto simp: belowRooted_def)
    moreover from less.prems c have "depthOf allTasks (Suc n) c"
      by (auto intro: depthOf.child)
    ultimately show
      "\<exists>ch. buildTaskTrees allTasks (sortedChildren allTasks (Some (task_id c))) = Some ch"
      by (rule less.IH)
  qed
qed

lemma buildTaskTree_total:
  assumes "distinct (map task_id allTasks)"
  shows "\<exists>forest. buildTaskTree allTasks None = Some forest"
  unfolding buildTaskTree_eq
proof (rule buildTaskTrees_total_list)
  fix t assume "t \<in> set (sortedChildren allTasks None)"
  then have "depthOf allTasks 0 t"
    by (auto simp: set_sortedChildren intro: depthOf.root)
  with assms show
    "\<exists>ch. buildTaskTrees allTasks (sortedChildren allTasks (Some (task_id t))) = Some ch"
    by (rule buildTaskTrees_total_below)
qed


lemma nodesOf_parent:
  assumes "\<forall>m \<in> set (nodesOf n). map node_task (children m)
             = sortedChildren allTasks (Some (task_id (node_task m)))"
      and "node_task n \<in> set allTasks"
  shows "\<forall>m \<in> set (nodesOf n).
           m = n \<or> (\<exists>p \<in> set allTasks. parentTaskId (node_task m) = Some (task_id p))"
  using assms
proof (induction n)
  case (TaskWithChildren t ch)
  have kids: "map node_task ch = sortedChildren allTasks (Some (task_id t))"
    using TaskWithChildren.prems(1) by simp
  show ?case
  proof
    fix m assume m: "m \<in> set (nodesOf (TaskWithChildren t ch))"
    show "m = TaskWithChildren t ch
          \<or> (\<exists>p \<in> set allTasks. parentTaskId (node_task m) = Some (task_id p))"
    proof (cases "m = TaskWithChildren t ch")
      case True
      then show ?thesis by simp
    next
      case False
      with m obtain c where c: "c \<in> set ch" "m \<in> set (nodesOf c)" by auto
      from c(1) have "node_task c \<in> set (map node_task ch)" by simp
      then have ct: "node_task c \<in> set allTasks" "parentTaskId (node_task c) = Some (task_id t)"
        unfolding kids by (simp_all add: set_sortedChildren)
      have "\<forall>m \<in> set (nodesOf c). map node_task (children m)
             = sortedChildren allTasks (Some (task_id (node_task m)))"
        using TaskWithChildren.prems(1) c(1) by auto
      from TaskWithChildren.IH [OF c(1) this ct(1)] c(2)
      have "m = c \<or> (\<exists>p \<in> set allTasks. parentTaskId (node_task m) = Some (task_id p))"
        by blast
      with ct(2) TaskWithChildren.prems(2) show ?thesis by auto
    qed
  qed
qed

text \<open>
  Claim C7. For a list of tasks with distinct ids, \<open>buildTaskTree\<close> with \<open>parentId\<close>
  \<open>null\<close> returns a forest (it has no other effect: it reads no store and returns none).
  The roots of the forest are the tasks whose \<open>parentTaskId\<close> is \<open>null\<close>, and the
  children of every node, at any depth, are the tasks whose \<open>parentTaskId\<close> is the id of
  the node; both are sorted ascending by \<open>sortOrder\<close> with ties in the order of the
  input. The empty list gives the empty forest, and a task whose \<open>parentTaskId\<close> is the
  id of no task of the list is the task of no node of the forest.
\<close>

theorem buildTaskTree_forest:
  assumes "distinct (map task_id allTasks)"
  shows "\<exists>forest. buildTaskTree allTasks None = Some forest
     \<and> stableSortedBy sortOrder (filter (\<lambda>t. parentTaskId t = None) allTasks)
          (map node_task forest)
     \<and> (\<forall>n \<in> set (forestNodes forest).
           stableSortedBy sortOrder
             (filter (\<lambda>c. parentTaskId c = Some (task_id (node_task n))) allTasks)
             (map node_task (children n)))
     \<and> (\<forall>t \<in> set allTasks. \<forall>p. parentTaskId t = Some p \<and> p \<notin> task_id ` set allTasks
           \<longrightarrow> t \<notin> node_task ` set (forestNodes forest))
     \<and> (allTasks = [] \<longrightarrow> forest = [])"
proof -
  from buildTaskTree_total [OF assms] obtain forest where
    forest: "buildTaskTree allTasks None = Some forest" by blast
  then have "buildTaskTrees allTasks (sortedChildren allTasks None) = Some forest"
    by (simp add: buildTaskTree_eq)
  from buildTaskTrees_result [OF this]
  have roots: "map node_task forest = sortedChildren allTasks None"
    and kids: "\<forall>n \<in> set (forestNodes forest). map node_task (children n)
               = sortedChildren allTasks (Some (task_id (node_task n)))"
    by simp_all
  have a: "stableSortedBy sortOrder (filter (\<lambda>t. parentTaskId t = None) allTasks)
          (map node_task forest)"
    unfolding roots by (rule stableSortedBy_sortedChildren)
  have b: "\<forall>n \<in> set (forestNodes forest).
           stableSortedBy sortOrder
             (filter (\<lambda>c. parentTaskId c = Some (task_id (node_task n))) allTasks)
             (map node_task (children n))"
    using kids by (simp add: stableSortedBy_sortedChildren)
  have c: "\<forall>t \<in> set allTasks. \<forall>p. parentTaskId t = Some p \<and> p \<notin> task_id ` set allTasks
           \<longrightarrow> t \<notin> node_task ` set (forestNodes forest)"
  proof (intro ballI allI impI notI)
    fix t p
    assume orphan: "parentTaskId t = Some p \<and> p \<notin> task_id ` set allTasks"
      and "t \<in> node_task ` set (forestNodes forest)"
    then obtain m n where n: "n \<in> set forest" and m: "m \<in> set (nodesOf n)" "node_task m = t"
      by (auto simp: forestNodes_def)
    from n have "node_task n \<in> set (map node_task forest)" by simp
    then have r: "node_task n \<in> set allTasks" "parentTaskId (node_task n) = None"
      unfolding roots by (simp_all add: set_sortedChildren)
    have "\<forall>m \<in> set (nodesOf n). map node_task (children m)
             = sortedChildren allTasks (Some (task_id (node_task m)))"
      using kids n by (auto simp: forestNodes_def)
    from nodesOf_parent [OF this r(1)] m(1)
    have "m = n \<or> (\<exists>q \<in> set allTasks. parentTaskId (node_task m) = Some (task_id q))"
      by blast
    with r(2) m(2) orphan show False by auto
  qed
  have d: "allTasks = [] \<longrightarrow> forest = []"
    using roots by (auto simp: sortedChildren_def)
  from forest a b c d show ?thesis by blast
qed

lemma sample_rows_forest:
  "buildTaskTree sampleRows None =
     Some [TaskWithChildren (sampleTask ''X2'' None 0 ''pending'' 0) [],
           TaskWithChildren (sampleTask ''X1'' None 0 ''pending'' 1)
             [TaskWithChildren (sampleTask ''K1'' (Some ''X1'') 0 ''pending'' 5) [],
              TaskWithChildren (sampleTask ''K2'' (Some ''X1'') 0 ''pending'' 5) []],
           TaskWithChildren (sampleTask ''X3'' None 0 ''pending'' 1) []]"
  by (simp add: buildTaskTree_eq buildTaskTrees_Cons sortedChildren_def sampleRows_def
      sampleTask_def)

theorem buildTaskTree_forest_witness:
  "distinct (map task_id sampleRows)
   \<and> sampleTask ''O'' (Some ''ghost'') 0 ''pending'' 0 \<in> set sampleRows
   \<and> ''ghost'' \<notin> task_id ` set sampleRows
   \<and> (\<exists>forest. buildTaskTree sampleRows None = Some forest
         \<and> stableSortedBy sortOrder (filter (\<lambda>t. parentTaskId t = None) sampleRows)
              (map node_task forest)
         \<and> map (task_id \<circ> node_task) forest = [''X2'', ''X1'', ''X3'']
         \<and> map (task_id \<circ> node_task) (forestNodes forest)
             = [''X2'', ''X1'', ''K1'', ''K2'', ''X3'']
         \<and> sampleTask ''O'' (Some ''ghost'') 0 ''pending'' 0
             \<notin> node_task ` set (forestNodes forest))"
proof -
  have d: "distinct (map task_id sampleRows)"
    by (simp add: sampleRows_def sampleTask_def)
  have o: "sampleTask ''O'' (Some ''ghost'') 0 ''pending'' 0 \<in> set sampleRows"
    by (simp add: sampleRows_def)
  have g: "''ghost'' \<notin> task_id ` set sampleRows"
    by (simp add: sampleRows_def sampleTask_def)
  have po: "parentTaskId (sampleTask ''O'' (Some ''ghost'') 0 ''pending'' 0) = Some ''ghost''"
    by (simp add: sampleTask_def)
  from buildTaskTree_forest [OF d] obtain forest where
    f: "buildTaskTree sampleRows None = Some forest"
    and s: "stableSortedBy sortOrder (filter (\<lambda>t. parentTaskId t = None) sampleRows)
              (map node_task forest)"
    and orphans: "\<forall>t \<in> set sampleRows. \<forall>p. parentTaskId t = Some p
             \<and> p \<notin> task_id ` set sampleRows \<longrightarrow> t \<notin> node_task ` set (forestNodes forest)"
    by blast
  from orphans o po g
  have out: "sampleTask ''O'' (Some ''ghost'') 0 ''pending'' 0
             \<notin> node_task ` set (forestNodes forest)"
    by blast
  from f have shape: "forest =
          [TaskWithChildren (sampleTask ''X2'' None 0 ''pending'' 0) [],
           TaskWithChildren (sampleTask ''X1'' None 0 ''pending'' 1)
             [TaskWithChildren (sampleTask ''K1'' (Some ''X1'') 0 ''pending'' 5) [],
              TaskWithChildren (sampleTask ''K2'' (Some ''X1'') 0 ''pending'' 5) []],
           TaskWithChildren (sampleTask ''X3'' None 0 ''pending'' 1) []]"
    by (simp add: sample_rows_forest)
  have r: "map (task_id \<circ> node_task) forest = [''X2'', ''X1'', ''X3'']"
    unfolding shape by (simp add: sampleTask_def)
  have n: "map (task_id \<circ> node_task) (forestNodes forest)
             = [''X2'', ''X1'', ''K1'', ''K2'', ''X3'']"
    unfolding shape by (simp add: sampleTask_def)
  from f s r n out
  have "\<exists>forest. buildTaskTree sampleRows None = Some forest
         \<and> stableSortedBy sortOrder (filter (\<lambda>t. parentTaskId t = None) sampleRows)
              (map node_task forest)
         \<and> map (task_id \<circ> node_task) forest = [''X2'', ''X1'', ''X3'']
         \<and> map (task_id \<circ> node_task) (forestNodes forest)
             = [''X2'', ''X1'', ''K1'', ''K2'', ''X3'']
         \<and> sampleTask ''O'' (Some ''ghost'') 0 ''pending'' 0
             \<notin> node_task ` set (forestNodes forest)"
    by (intro exI [of _ forest] conjI)
  with d o g show ?thesis by (intro conjI)
qed

end
